theory Spec2Isabelle
  imports Main
begin

section \<open>JavaScript strings\<close>

text \<open>
  A JavaScript string is a sequence of UTF-16 code units. A code unit is modelled by its
  number, so \<open>length\<close> is the \<^verbatim>\<open>.length\<close> of the source. \<open>S\<close> turns an ASCII
  literal into such a sequence.
\<close>

type_synonym jschar = nat
type_synonym jsstring = "jschar list"

abbreviation S :: "string \<Rightarrow> jsstring" where
  "S \<equiv> map of_char"

text \<open>The character classes of ECMAScript regular expressions (no \<^verbatim>\<open>u\<close> flag).\<close>

definition is_digit :: "jschar \<Rightarrow> bool" where
  "is_digit c = (48 \<le> c \<and> c \<le> 57)"

definition is_word :: "jschar \<Rightarrow> bool" where
  "is_word c = (is_digit c \<or> (65 \<le> c \<and> c \<le> 90) \<or> (97 \<le> c \<and> c \<le> 122) \<or> c = 95)"

text \<open>
  \<^verbatim>\<open>\s\<close> is WhiteSpace and LineTerminator: TAB, LF, VT, FF, CR, SP, NBSP, U+1680,
  U+2000..U+200A, U+2028, U+2029, U+202F, U+205F, U+3000, U+FEFF. \<^verbatim>\<open>trim()\<close> strips
  the same set.
\<close>

definition is_space :: "jschar \<Rightarrow> bool" where
  "is_space c = ((9 \<le> c \<and> c \<le> 13) \<or> c = 32 \<or> c = 160 \<or> c = 5760 \<or>
     (8192 \<le> c \<and> c \<le> 8202) \<or> c = 8232 \<or> c = 8233 \<or> c = 8239 \<or> c = 8287 \<or>
     c = 12288 \<or> c = 65279)"

text \<open>\<^verbatim>\<open>.\<close> is every code unit but the line terminators LF, CR, U+2028, U+2029.\<close>

definition is_dot :: "jschar \<Rightarrow> bool" where
  "is_dot c = (c \<noteq> 10 \<and> c \<noteq> 13 \<and> c \<noteq> 8232 \<and> c \<noteq> 8233)"

definition any_char :: "jschar \<Rightarrow> bool" where
  "any_char c = True"

definition one_of :: "string \<Rightarrow> jschar \<Rightarrow> bool" where
  "one_of cs c = (c \<in> set (S cs))"

definition trim :: "jsstring \<Rightarrow> jsstring" where
  "trim s = rev (dropWhile is_space (rev (dropWhile is_space s)))"

definition startsWith :: "jsstring \<Rightarrow> jsstring \<Rightarrow> bool" where
  "startsWith s p = (take (length p) s = p)"

definition endsWith :: "jsstring \<Rightarrow> jsstring \<Rightarrow> bool" where
  "endsWith s p = (length p \<le> length s \<and> drop (length s - length p) s = p)"

fun js_includes :: "jsstring \<Rightarrow> jsstring \<Rightarrow> bool" where
  "js_includes [] p = (p = [])"
| "js_includes (c # cs) p = (startsWith (c # cs) p \<or> js_includes cs p)"

text \<open>\<^verbatim>\<open>Array.prototype.indexOf\<close>: the first position of the element, or -1.\<close>

fun indexOf :: "'a list \<Rightarrow> 'a \<Rightarrow> int" where
  "indexOf [] x = -1"
| "indexOf (y # ys) x =
     (if y = x then 0 else (let r = indexOf ys x in if r < 0 then -1 else r + 1))"

text \<open>\<^verbatim>\<open>Array.prototype.join\<close>.\<close>

fun join :: "jsstring \<Rightarrow> jsstring list \<Rightarrow> jsstring" where
  "join sep [] = []"
| "join sep [x] = x"
| "join sep (x # y # ys) = x @ sep @ join sep (y # ys)"

text \<open>The decimal text of a non-negative integer, as a template literal prints it.\<close>

function decimal :: "nat \<Rightarrow> jsstring" where
  "decimal n = (if n < 10 then [48 + n] else decimal (n div 10) @ [48 + n mod 10])"
  by pat_completeness auto
termination
  by (relation "measure id") auto

declare decimal.simps [simp del]

text \<open>
  \<^verbatim>\<open>String.prototype.split\<close> with a string separator: the pieces between the
  occurrences of the separator, found left to right without overlap. An empty separator
  splits into single code units.
\<close>

function split_go :: "jsstring \<Rightarrow> jsstring \<Rightarrow> jsstring \<Rightarrow> jsstring list" where
  "split_go sep acc [] = [rev acc]"
| "split_go sep acc (c # cs) =
     (if sep \<noteq> [] \<and> startsWith (c # cs) sep
      then rev acc # split_go sep [] (drop (length sep - 1) cs)
      else split_go sep (c # acc) cs)"
  by pat_completeness auto
termination
  by (relation "measure (\<lambda>(sep, acc, s). length s)") auto

definition split_str :: "jsstring \<Rightarrow> jsstring \<Rightarrow> jsstring list" where
  "split_str s sep = (if sep = [] then map (\<lambda>c. [c]) s else split_go sep [] s)"

section \<open>Regular expressions\<close>

text \<open>
  The patterns of the source use single-character classes, sequence, alternation, greedy
  and lazy repetition of a class, optional groups, \<^verbatim>\<open>^\<close>, \<^verbatim>\<open>$\<close> (no \<^verbatim>\<open>m\<close> flag),
  \<^verbatim>\<open>\b\<close>, a lookahead and at most one capture group. \<open>Rep greedy n p\<close> is \<open>n\<close> or
  more code units of class \<open>p\<close>.
\<close>

datatype rx =
    Eps
  | Chr "jschar \<Rightarrow> bool"
  | Seq rx rx
  | Alt rx rx
  | Rep bool nat "jschar \<Rightarrow> bool"
  | Opt rx
  | Bol
  | Eol
  | WordB
  | Ahead rx
  | Group rx

text \<open>
  A matcher state: the code unit before the current position (\<open>None\<close> at index 0), the
  input from the current position on, and the text of capture group 1 if it has matched.
\<close>

type_synonym rstate = "jschar option \<times> jsstring \<times> jsstring option"

definition st_rest :: "rstate \<Rightarrow> jsstring" where
  "st_rest \<sigma> = fst (snd \<sigma>)"

definition st_cap :: "rstate \<Rightarrow> jsstring option" where
  "st_cap \<sigma> = snd (snd \<sigma>)"

fun rep_run :: "bool \<Rightarrow> nat \<Rightarrow> (jschar \<Rightarrow> bool) \<Rightarrow> jschar option \<Rightarrow> jsstring \<Rightarrow>
    jsstring option \<Rightarrow> rstate list" where
  "rep_run greedy n p prev [] cap = (if n = 0 then [(prev, [], cap)] else [])"
| "rep_run greedy n p prev (c # cs) cap =
     (let stop = (if n = 0 then [(prev, c # cs, cap)] else []);
          more = (if p c then rep_run greedy (n - 1) p (Some c) cs cap else [])
      in if greedy then more @ stop else stop @ more)"

definition at_word_boundary :: "jschar option \<Rightarrow> jsstring \<Rightarrow> bool" where
  "at_word_boundary prev rest =
     ((case prev of None \<Rightarrow> False | Some c \<Rightarrow> is_word c) \<noteq>
      (case rest of [] \<Rightarrow> False | c # cs \<Rightarrow> is_word c))"

text \<open>
  All the ways a pattern matches at a state, in the order the backtracking matcher of
  ECMAScript tries them: the first alternative first, more repetitions first when greedy
  and fewer first when lazy. The head of the list is the match the engine reports.
  An optional group may not match the empty string (the engine rejects an empty
  iteration).
\<close>

fun rx_run :: "rx \<Rightarrow> rstate \<Rightarrow> rstate list" where
  "rx_run Eps \<sigma> = [\<sigma>]"
| "rx_run (Chr p) (prev, rest, cap) =
     (case rest of [] \<Rightarrow> [] | c # cs \<Rightarrow> if p c then [(Some c, cs, cap)] else [])"
| "rx_run (Seq a b) \<sigma> = concat (map (rx_run b) (rx_run a \<sigma>))"
| "rx_run (Alt a b) \<sigma> = rx_run a \<sigma> @ rx_run b \<sigma>"
| "rx_run (Rep greedy n p) (prev, rest, cap) = rep_run greedy n p prev rest cap"
| "rx_run (Opt a) \<sigma> =
     filter (\<lambda>\<tau>. length (st_rest \<tau>) < length (st_rest \<sigma>)) (rx_run a \<sigma>) @ [\<sigma>]"
| "rx_run Bol (prev, rest, cap) = (if prev = None then [(prev, rest, cap)] else [])"
| "rx_run Eol (prev, rest, cap) = (if rest = [] then [(prev, rest, cap)] else [])"
| "rx_run WordB (prev, rest, cap) =
     (if at_word_boundary prev rest then [(prev, rest, cap)] else [])"
| "rx_run (Ahead a) \<sigma> = (if rx_run a \<sigma> = [] then [] else [\<sigma>])"
| "rx_run (Group a) (prev, rest, cap) =
     map (\<lambda>(prev', rest', cap'). (prev', rest', Some (take (length rest - length rest') rest)))
       (rx_run a (prev, rest, cap))"

text \<open>Builders: a sequence of patterns, one code unit, a literal, a literal under \<^verbatim>\<open>/i\<close>.\<close>

definition seqs :: "rx list \<Rightarrow> rx" where
  "seqs rs = foldr Seq rs Eps"

definition ch :: "char \<Rightarrow> rx" where
  "ch c = Chr (\<lambda>x. x = of_char c)"

definition lit :: "string \<Rightarrow> rx" where
  "lit cs = seqs (map ch cs)"

text \<open>
  Under \<^verbatim>\<open>/i\<close> an ASCII letter of the pattern matches exactly its two cases: the
  engine compares upper-cased code units, and skips an upper-casing that would take a
  non-ASCII code unit to an ASCII one.
\<close>

definition ch_ci :: "char \<Rightarrow> rx" where
  "ch_ci c = Chr (\<lambda>x. x = of_char c \<or>
     (65 \<le> x \<and> x \<le> 90 \<and> x + 32 = of_char c) \<or>
     (97 \<le> x \<and> x \<le> 122 \<and> x = of_char c + 32))"

definition lit_ci :: "string \<Rightarrow> rx" where
  "lit_ci cs = seqs (map ch_ci cs)"

text \<open>
  The first match at or after a position, scanning start positions left to right: the
  input from the start of the match, and the state at its end.
\<close>

fun rx_search :: "rx \<Rightarrow> jschar option \<Rightarrow> jsstring \<Rightarrow> (jsstring \<times> rstate) option" where
  "rx_search r prev [] =
     (case rx_run r (prev, [], None) of [] \<Rightarrow> None | \<tau> # _ \<Rightarrow> Some ([], \<tau>))"
| "rx_search r prev (c # cs) =
     (case rx_run r (prev, c # cs, None) of
        [] \<Rightarrow> rx_search r (Some c) cs
      | \<tau> # _ \<Rightarrow> Some (c # cs, \<tau>))"

text \<open>\<^verbatim>\<open>str.match(re)\<close> without \<^verbatim>\<open>g\<close>: \<^verbatim>\<open>match[0]\<close>, or \<open>None\<close> for null.\<close>

definition js_match :: "rx \<Rightarrow> jsstring \<Rightarrow> jsstring option" where
  "js_match r s =
     (case rx_search r None s of
        None \<Rightarrow> None
      | Some (st, (prev', rest', cap)) \<Rightarrow> Some (take (length st - length rest') st))"

subsection \<open>The matcher only moves forward\<close>

lemma rep_run_length:
  "\<tau> \<in> set (rep_run greedy n p prev s cap) \<Longrightarrow> length (st_rest \<tau>) \<le> length s"
  by (induction s arbitrary: n prev)
    (auto simp: st_rest_def Let_def split: if_splits, fastforce+)

lemma rx_run_length:
  "\<tau> \<in> set (rx_run r \<sigma>) \<Longrightarrow> length (st_rest \<tau>) \<le> length (st_rest \<sigma>)"
proof (induction r arbitrary: \<sigma> \<tau>)
  case (Chr p)
  then show ?case
    by (cases \<sigma>) (auto simp: st_rest_def split: list.splits if_splits)
next
  case (Seq a b)
  then obtain \<mu> where "\<mu> \<in> set (rx_run a \<sigma>)" "\<tau> \<in> set (rx_run b \<mu>)"
    by auto
  with Seq.IH show ?case
    by (meson le_trans)
next
  case (Rep greedy n p)
  then show ?case
    by (cases \<sigma>) (auto simp: st_rest_def dest: rep_run_length)
next
  case (Group a)
  then show ?case
    by (cases \<sigma>) (fastforce simp: st_rest_def)
qed (auto simp: st_rest_def split: if_splits)

lemma rx_search_length:
  "rx_search r prev s = Some (st, prev', rest', cap) \<Longrightarrow>
     length st \<le> length s \<and> length rest' \<le> length st"
proof (induction s arbitrary: prev)
  case Nil
  show ?case
  proof (cases "rx_run r (prev, [], None)")
    case Nil
    with Nil.prems show ?thesis by simp
  next
    case (Cons \<mu> ms)
    then have "\<mu> \<in> set (rx_run r (prev, [], None))" by simp
    from rx_run_length [OF this] Cons Nil.prems show ?thesis
      by (auto simp: st_rest_def)
  qed
next
  case (Cons c cs)
  show ?case
  proof (cases "rx_run r (prev, c # cs, None)")
    case Nil
    with Cons show ?thesis by fastforce
  next
    case (Cons \<mu> ms)
    then have "\<mu> \<in> set (rx_run r (prev, c # cs, None))" by simp
    from rx_run_length [OF this] Cons Cons.prems show ?thesis
      by (auto simp: st_rest_def)
  qed
qed

subsection \<open>Global matching, splitting, replacing\<close>

text \<open>
  \<^verbatim>\<open>str.matchAll(re)\<close> with the \<^verbatim>\<open>g\<close> flag: each match with its group 1, the next
  search starting where the last match ended (one code unit further after an empty
  match).
\<close>

function rx_all :: "rx \<Rightarrow> jschar option \<Rightarrow> jsstring \<Rightarrow> (jsstring \<times> jsstring option) list" where
  "rx_all r prev s =
     (case rx_search r prev s of
        None \<Rightarrow> []
      | Some (st, (prev', rest', cap)) \<Rightarrow>
          (take (length st - length rest') st, cap) #
          (if length rest' < length st then rx_all r prev' rest'
           else (case rest' of [] \<Rightarrow> [] | c # cs \<Rightarrow> rx_all r (Some c) cs)))"
  by pat_completeness auto
termination
  by (relation "measure (\<lambda>(r, prev, s). length s)")
    (auto dest!: rx_search_length)

declare rx_all.simps [simp del]

definition matchAll :: "rx \<Rightarrow> jsstring \<Rightarrow> (jsstring \<times> jsstring option) list" where
  "matchAll r s = rx_all r None s"

text \<open>
  \<^verbatim>\<open>str.split(re)\<close> for a pattern without capture groups: at each position the
  pattern is tried there only; a match ends the current piece and the scan goes on after
  it. An empty match does not split at the start of a piece.
\<close>

function re_split_go :: "rx \<Rightarrow> jsstring \<Rightarrow> jschar option \<Rightarrow> jsstring \<Rightarrow> jsstring list" where
  "re_split_go r acc prev [] = [rev acc]"
| "re_split_go r acc prev (c # cs) =
     (case rx_run r (prev, c # cs, None) of
        [] \<Rightarrow> re_split_go r (c # acc) (Some c) cs
      | (prev', rest', cap) # _ \<Rightarrow>
          if length rest' < length (c # cs) then rev acc # re_split_go r [] prev' rest'
          else if acc = [] then re_split_go r [c] (Some c) cs
          else rev acc # re_split_go r [c] (Some c) cs)"
  by pat_completeness auto
termination
  by (relation "measure (\<lambda>(r, acc, prev, s). length s)") auto

definition split_re :: "jsstring \<Rightarrow> rx \<Rightarrow> jsstring list" where
  "split_re s r =
     (if s = [] then (if rx_run r (None, [], None) = [] then [[]] else [])
      else re_split_go r [] None s)"

text \<open>\<^verbatim>\<open>str.replace(re, '')\<close> without \<^verbatim>\<open>g\<close>: the first match is removed.\<close>

definition remove_first :: "rx \<Rightarrow> jsstring \<Rightarrow> jsstring" where
  "remove_first r s =
     (case rx_search r None s of
        None \<Rightarrow> s
      | Some (st, (prev', rest', cap)) \<Rightarrow> take (length s - length st) s @ rest')"

section \<open>The structured-text tier\<close>

text \<open>A question record \<^verbatim>\<open>{question, options, correctAnswer}\<close> built by the source.\<close>

record mcq =
  question :: jsstring
  options :: "jsstring list"
  correctAnswer :: int

text \<open>\<^verbatim>\<open>/(?:^|\n)(?:\d+\.\s*)([^?]+\?)/g\<close>\<close>

definition questionRegex :: rx where
  "questionRegex = seqs [Alt Bol (ch CHR 0x0A), Rep True 1 is_digit, ch CHR ''.'',
     Rep True 0 is_space, Group (seqs [Rep True 1 (\<lambda>c. c \<noteq> of_char CHR ''?''), ch CHR ''?''])]"

text \<open>\<^verbatim>\<open>/(?:\d+\.\s*)|(?:\n\s*\n)/\<close>\<close>

definition zoneRegex :: rx where
  "zoneRegex = Alt (seqs [Rep True 1 is_digit, ch CHR ''.'', Rep True 0 is_space])
     (seqs [ch CHR 0x0A, Rep True 0 is_space, ch CHR 0x0A])"

text \<open>\<^verbatim>\<open>/(?:^|\n)(?:[A-D]\.\s*)(.+?)(?=\n[A-D]\.|$)/g\<close>\<close>

definition optionRegex :: rx where
  "optionRegex = seqs [Alt Bol (ch CHR 0x0A), Chr (one_of ''ABCD''), ch CHR ''.'',
     Rep True 0 is_space, Group (Rep False 1 is_dot),
     Ahead (Alt (seqs [ch CHR 0x0A, Chr (one_of ''ABCD''), ch CHR ''.'']) Eol)]"

text \<open>\<^verbatim>\<open>/correct(?:\s*answer)?(?:\s*is)?(?:\s*:)?\s*X/i\<close> for the letter \<open>X\<close>.\<close>

definition correctRegex :: "char \<Rightarrow> rx" where
  "correctRegex X = seqs [lit_ci ''correct'',
     Opt (seqs [Rep True 0 is_space, lit_ci ''answer'']),
     Opt (seqs [Rep True 0 is_space, lit_ci ''is'']),
     Opt (seqs [Rep True 0 is_space, ch CHR '':'']),
     Rep True 0 is_space, ch_ci X]"

text \<open>
  Lines 258: \<^verbatim>\<open>mcqText.split(questionText)[1]?.split(...)[0]\<close>. \<open>None\<close> is
  \<^verbatim>\<open>undefined\<close>.
\<close>

definition optionsZone :: "jsstring \<Rightarrow> jsstring \<Rightarrow> jsstring option" where
  "optionsZone mcqText questionText =
     (case split_str mcqText questionText of
        a # b # rest \<Rightarrow> (case split_re b zoneRegex of [] \<Rightarrow> None | z # zs \<Rightarrow> Some z)
      | _ \<Rightarrow> None)"

text \<open>
  Lines 261-267: the trimmed group 1 of every option match. \<open>None\<close> is the TypeError of
  \<^verbatim>\<open>undefined.trim()\<close>, should a match lack its group.
\<close>

definition readOptions :: "jsstring \<Rightarrow> jsstring list option" where
  "readOptions optionsText =
     those (map (\<lambda>(m, cap). map_option trim cap) (matchAll optionRegex optionsText))"

text \<open>Lines 269-282: the chain of tests for the letters A, B, C, D, in this order.\<close>

definition marks :: "jsstring \<Rightarrow> char \<Rightarrow> bool" where
  "marks optionsText X =
     (js_includes optionsText (S (''Correct: '' @ [X])) \<or>
      js_includes optionsText (S (''correct: '' @ [X])) \<or>
      js_match (correctRegex X) optionsText \<noteq> None)"

definition findCorrectAnswer :: "jsstring \<Rightarrow> int" where
  "findCorrectAnswer optionsText =
     (if marks optionsText CHR ''A'' then 0
      else if marks optionsText CHR ''B'' then 1
      else if marks optionsText CHR ''C'' then 2
      else if marks optionsText CHR ''D'' then 3
      else 0)"

text \<open>
  The body of the loop of lines 256-292 for one match of \<open>questionRegex\<close>, given its
  group 1: the questions collected so far, with the new record when it has four options.
  \<open>None\<close> is an exception.
\<close>

definition structuredStep :: "jsstring \<Rightarrow> jsstring option \<Rightarrow> mcq list \<Rightarrow> mcq list option" where
  "structuredStep mcqText group1 questions =
     (case group1 of
        None \<Rightarrow> None
      | Some g \<Rightarrow>
          let questionText = trim g in
          (case optionsZone mcqText questionText of
             None \<Rightarrow> Some questions
           | Some optionsText \<Rightarrow>
               if optionsText = [] then Some questions
               else
                 (case readOptions optionsText of
                    None \<Rightarrow> None
                  | Some opts \<Rightarrow>
                      if 4 \<le> length opts
                      then Some (questions @
                        [\<lparr>question = questionText, options = take 4 opts,
                          correctAnswer = findCorrectAnswer optionsText\<rparr>])
                      else Some questions)))"

fun structuredLoop :: "jsstring \<Rightarrow> (jsstring \<times> jsstring option) list \<Rightarrow> mcq list \<Rightarrow>
    mcq list option" where
  "structuredLoop mcqText [] questions = Some questions"
| "structuredLoop mcqText ((m, group1) # ms) questions =
     (if length questions < 10
      then (case structuredStep mcqText group1 questions of
              None \<Rightarrow> None
            | Some questions' \<Rightarrow> structuredLoop mcqText ms questions')
      else Some questions)"

text \<open>Lines 252-292: the questions the structured-text tier collects.\<close>

definition structuredQuestions :: "jsstring \<Rightarrow> mcq list option" where
  "structuredQuestions mcqText = structuredLoop mcqText (matchAll questionRegex mcqText) []"

section \<open>JSON.parse\<close>

text \<open>
  A JavaScript number is an IEEE 754 double: \<open>Finite neg m e\<close> is the number
  \<open>m * 2 ^ e\<close> with the sign \<open>neg\<close>, where \<open>e \<le> 0\<close> and \<open>m\<close> is odd unless
  \<open>e = 0\<close>, so that every double has one representation (an integer \<open>n\<close> is
  \<open>Finite neg n 0\<close>, and \<^verbatim>\<open>-0\<close> is \<open>Finite True 0 0\<close>); \<open>Infinite neg\<close> is the infinity a
  literal beyond the range rounds to.
\<close>

datatype double = Finite bool nat int | Infinite bool

text \<open>The number of binary digits of \<open>n\<close>.\<close>

function bit_length :: "nat \<Rightarrow> nat" where
  "bit_length n = (if n = 0 then 0 else Suc (bit_length (n div 2)))"
  by pat_completeness auto
termination
  by (relation "measure id") auto

declare bit_length.simps [simp del]

text \<open>The fraction \<open>n / d\<close> divided by \<open>2 ^ k\<close>, as a fraction.\<close>

definition scale2 :: "nat \<Rightarrow> nat \<Rightarrow> int \<Rightarrow> nat \<times> nat" where
  "scale2 n d k = (if 0 \<le> k then (n, d * 2 ^ nat k) else (n * 2 ^ nat (- k), d))"

text \<open>The exponent \<open>j\<close> with \<open>2 ^ j \<le> n / d < 2 ^ (j + 1)\<close>, for \<open>0 < n\<close>.\<close>

definition floor_log2 :: "nat \<Rightarrow> nat \<Rightarrow> int" where
  "floor_log2 n d =
     (let j = int (bit_length n) - int (bit_length d)
      in case scale2 n d j of (a, b) \<Rightarrow> if b \<le> a then j else j - 1)"

text \<open>The integer nearest to \<open>a / b\<close>, the even one of two that are equally near.\<close>

definition round_half_even :: "nat \<Rightarrow> nat \<Rightarrow> nat" where
  "round_half_even a b =
     (if b < 2 * (a mod b) \<or> (2 * (a mod b) = b \<and> odd (a div b)) then a div b + 1
      else a div b)"

function reduce2 :: "nat \<Rightarrow> int \<Rightarrow> nat \<times> int" where
  "reduce2 m e = (if e < 0 \<and> even m \<and> 0 < m then reduce2 (m div 2) (e + 1) else (m, e))"
  by pat_completeness auto
termination
  by (relation "measure (\<lambda>(m, e). nat (- e))") auto

declare reduce2.simps [simp del]

text \<open>
  The double nearest to \<open>n / d\<close> (round to nearest, ties to even): 53 significant bits,
  fewer below \<open>2 ^ - 1022\<close> where the unit is \<open>2 ^ - 1074\<close>, an infinity from \<open>2 ^ 1024\<close>
  on.
\<close>

definition to_double :: "bool \<Rightarrow> nat \<Rightarrow> nat \<Rightarrow> double" where
  "to_double neg n d =
     (if n = 0 then Finite neg 0 0
      else
        (let k = max (floor_log2 n d - 52) (- 1074)
         in case scale2 n d k of
              (a, b) \<Rightarrow>
                (let q = round_half_even a b
                 in if q = 0 then Finite neg 0 0
                    else if 1024 < int (bit_length q) + k then Infinite neg
                    else if 0 \<le> k then Finite neg (q * 2 ^ nat k) 0
                    else (case reduce2 q k of (m, e) \<Rightarrow> Finite neg m e))))"

definition digits_value :: "jsstring \<Rightarrow> nat" where
  "digits_value ds = foldl (\<lambda>a c. 10 * a + (c - 48)) 0 ds"

text \<open>The value of the exponent part of a number token (\<open>[]\<close>, or \<^verbatim>\<open>e\<close> and what follows).\<close>

definition exponent_of :: "jsstring \<Rightarrow> int" where
  "exponent_of s =
     (case s of
        [] \<Rightarrow> 0
      | c # cs \<Rightarrow>
          (case cs of
             [] \<Rightarrow> 0
           | x # xs \<Rightarrow>
               if x = 45 then - int (digits_value xs)
               else if x = 43 then int (digits_value xs)
               else int (digits_value cs)))"

text \<open>
  The number a JSON number token stands for: the double nearest to its decimal value,
  with the sign of the token.
\<close>

definition number_value :: "jsstring \<Rightarrow> double" where
  "number_value lx =
     (let neg = (take 1 lx = [45]);
          s1 = (if neg then drop 1 lx else lx);
          ip = takeWhile is_digit s1;
          s2 = dropWhile is_digit s1;
          fp = (if take 1 s2 = [46] then takeWhile is_digit (drop 1 s2) else []);
          s3 = (if take 1 s2 = [46] then dropWhile is_digit (drop 1 s2) else s2);
          e10 = exponent_of s3 - int (length fp);
          m = digits_value (ip @ fp)
      in if 0 \<le> e10 then to_double neg (m * 10 ^ nat e10) 1
         else to_double neg m (10 ^ nat (- e10)))"

text \<open>
  A parsed JSON value, as \<^verbatim>\<open>JSON.parse\<close> returns it: a number is a double, a string
  its code units, an object the list of its own properties in the order in which the
  runtime enumerates them.
\<close>

datatype json =
    JNull
  | JBool bool
  | JNum double
  | JStr jsstring
  | JArr "json list"
  | JObj "(jsstring \<times> json) list"

text \<open>
  \<^verbatim>\<open>JSON.parse\<close> defines the members of an object one by one, in the order of the text:
  a name that is already there keeps its place and takes the new value.
\<close>

fun define_property :: "jsstring \<Rightarrow> json \<Rightarrow> (jsstring \<times> json) list \<Rightarrow> (jsstring \<times> json) list" where
  "define_property k v [] = [(k, v)]"
| "define_property k v (p # ps) =
     (if fst p = k then (k, v) # ps else p # define_property k v ps)"

definition own_properties :: "(jsstring \<times> json) list \<Rightarrow> (jsstring \<times> json) list" where
  "own_properties ms = foldl (\<lambda>ps m. define_property (fst m) (snd m) ps) [] ms"

text \<open>
  An array index is the decimal text, without leading zeros, of an integer below
  \<open>2 ^ 32 - 1\<close>.
\<close>

definition is_array_index :: "jsstring \<Rightarrow> bool" where
  "is_array_index k =
     (k \<noteq> [] \<and> list_all is_digit k \<and> (if take 1 k = [48] then k = [48] else True) \<and>
      digits_value k < 4294967295)"

text \<open>
  The own properties in the order of enumeration: first the array indices in ascending
  order, then the other names in the order in which they were defined.
\<close>

definition js_properties :: "(jsstring \<times> json) list \<Rightarrow> (jsstring \<times> json) list" where
  "js_properties ms =
     (let ps = own_properties ms
      in sort_key (\<lambda>p. digits_value (fst p)) (filter (\<lambda>p. is_array_index (fst p)) ps) @
         filter (\<lambda>p. \<not> is_array_index (fst p)) ps)"

datatype token =
    TLBrack | TRBrack | TLBrace | TRBrace | TComma | TColon
  | TStr jsstring | TNum jsstring | TTrue | TFalse | TNull

text \<open>JSON white space: space, TAB, LF, CR.\<close>

definition is_json_ws :: "jschar \<Rightarrow> bool" where
  "is_json_ws c = (c = 32 \<or> c = 9 \<or> c = 10 \<or> c = 13)"

definition hex_val :: "jschar \<Rightarrow> nat option" where
  "hex_val c =
     (if 48 \<le> c \<and> c \<le> 57 then Some (c - 48)
      else if 65 \<le> c \<and> c \<le> 70 then Some (c - 55)
      else if 97 \<le> c \<and> c \<le> 102 then Some (c - 87)
      else None)"

text \<open>The code unit of a one-letter escape: \<^verbatim>\<open>\" \\ \/ \b \f \n \r \t\<close>.\<close>

definition escape :: "jschar \<Rightarrow> jschar option" where
  "escape e =
     (if e = 34 \<or> e = 92 \<or> e = 47 then Some e
      else if e = 98 then Some 8
      else if e = 102 then Some 12
      else if e = 110 then Some 10
      else if e = 114 then Some 13
      else if e = 116 then Some 9
      else None)"

text \<open>The four hex digits of a \<^verbatim>\<open>\u\<close> escape: the code unit and the input after them.\<close>

definition hex4 :: "jsstring \<Rightarrow> (jschar \<times> jsstring) option" where
  "hex4 s =
     (if length s < 4 then None
      else
        (case map hex_val (take 4 s) of
           [Some a, Some b, Some d, Some f] \<Rightarrow> Some (((a * 16 + b) * 16 + d) * 16 + f, drop 4 s)
         | _ \<Rightarrow> None))"

text \<open>
  One escape sequence, read from after the backslash: the code unit it stands for and
  the input after it.
\<close>

definition lex_escape :: "jsstring \<Rightarrow> (jschar \<times> jsstring) option" where
  "lex_escape s =
     (case s of
        [] \<Rightarrow> None
      | e # es \<Rightarrow>
          if e = 117 then hex4 es
          else (case escape e of None \<Rightarrow> None | Some x \<Rightarrow> Some (x, es)))"

lemma hex4_length: "hex4 s = Some (x, rest) \<Longrightarrow> length rest < length s"
  by (cases "length s < 4") (auto simp: hex4_def split: list.splits option.splits)

lemma lex_escape_length: "lex_escape s = Some (x, rest) \<Longrightarrow> length rest < length s"
proof (cases s)
  case Nil
  then show "lex_escape s = Some (x, rest) \<Longrightarrow> length rest < length s"
    by (simp add: lex_escape_def)
next
  case (Cons e es)
  assume "lex_escape s = Some (x, rest)"
  with Cons have "(e = 117 \<and> hex4 es = Some (x, rest)) \<or> rest = es"
    by (auto simp: lex_escape_def split: if_splits option.splits)
  with Cons show "length rest < length s"
    by (auto dest: hex4_length)
qed

text \<open>
  A string token, read from after its opening quote: the decoded text and the input
  after the closing quote. Control characters below U+0020 are not allowed unescaped.
\<close>

function lex_string :: "jsstring \<Rightarrow> jsstring \<Rightarrow> (jsstring \<times> jsstring) option" where
  "lex_string acc [] = None"
| "lex_string acc (c # cs) =
     (if c = 34 then Some (rev acc, cs)
      else if c < 32 then None
      else if c = 92 then
        (case lex_escape cs of
           None \<Rightarrow> None
         | Some (x, rest) \<Rightarrow> lex_string (x # acc) rest)
      else lex_string (c # acc) cs)"
  by pat_completeness auto
termination
  by (relation "measure (\<lambda>(acc, s). length s)")
    (auto dest!: lex_escape_length)

text \<open>
  A number token \<^verbatim>\<open>-? (0 | [1-9][0-9]*) (. [0-9]+)? ([eE] [+-]? [0-9]+)?\<close>: its text
  and the input after it.
\<close>

definition lex_frac :: "jsstring \<Rightarrow> (jsstring \<times> jsstring) option" where
  "lex_frac s =
     (case s of
        [] \<Rightarrow> Some ([], s)
      | c # cs \<Rightarrow>
          if c = 46 then
            (if takeWhile is_digit cs = [] then None
             else Some (c # takeWhile is_digit cs, dropWhile is_digit cs))
          else Some ([], s))"

definition lex_sign :: "jsstring \<Rightarrow> jsstring \<times> jsstring" where
  "lex_sign s = (case s of [] \<Rightarrow> ([], s) | c # cs \<Rightarrow> if c = 43 \<or> c = 45 then ([c], cs) else ([], s))"

definition lex_exp :: "jsstring \<Rightarrow> (jsstring \<times> jsstring) option" where
  "lex_exp s =
     (case s of
        [] \<Rightarrow> Some ([], s)
      | c # cs \<Rightarrow>
          if c = 101 \<or> c = 69 then
            (case lex_sign cs of
               (sg, r) \<Rightarrow>
                 if takeWhile is_digit r = [] then None
                 else Some (c # sg @ takeWhile is_digit r, dropWhile is_digit r))
          else Some ([], s))"

definition lex_int :: "jsstring \<Rightarrow> (jsstring \<times> jsstring) option" where
  "lex_int s =
     (case s of
        [] \<Rightarrow> None
      | d # ds \<Rightarrow>
          if d = 48 then Some ([d], ds)
          else if is_digit d then Some (d # takeWhile is_digit ds, dropWhile is_digit ds)
          else None)"

definition lex_number :: "jsstring \<Rightarrow> (jsstring \<times> jsstring) option" where
  "lex_number s =
     (case (case s of [] \<Rightarrow> ([], s) | c # cs \<Rightarrow> if c = 45 then ([c], cs) else ([], s)) of
        (sg, s1) \<Rightarrow>
          (case lex_int s1 of
             None \<Rightarrow> None
           | Some (ip, s2) \<Rightarrow>
               (case lex_frac s2 of
                  None \<Rightarrow> None
                | Some (fp, s3) \<Rightarrow>
                    (case lex_exp s3 of
                       None \<Rightarrow> None
                     | Some (ep, s4) \<Rightarrow> Some (sg @ ip @ fp @ ep, s4)))))"

lemma lex_string_length: "lex_string acc s = Some (str, rest) \<Longrightarrow> length rest < length s"
proof (induction acc s rule: lex_string.induct)
  case (1 acc)
  then show ?case by simp
next
  case (2 acc c cs)
  show ?case
  proof (cases "c = 34 \<or> c < 32")
    case True
    with "2.prems" show ?thesis by (auto split: if_splits)
  next
    case False
    note nq = this
    show ?thesis
    proof (cases "c = 92")
      case True
      with nq "2.prems" obtain x r where e: "lex_escape cs = Some (x, r)"
        and l: "lex_string (x # acc) r = Some (str, rest)"
        by (auto split: option.splits)
      from "2.IH"(1) nq True e l have "length rest < length r" by auto
      with lex_escape_length [OF e] show ?thesis by simp
    next
      case False
      with nq "2.prems" have "lex_string (c # acc) cs = Some (str, rest)" by simp
      with "2.IH"(2) nq False show ?thesis by fastforce
    qed
  qed
qed

lemma lex_frac_length: "lex_frac s = Some (fp, rest) \<Longrightarrow> length rest \<le> length s"
  by (auto simp: lex_frac_def le_SucI length_dropWhile_le split: list.splits if_splits)

lemma lex_exp_length: "lex_exp s = Some (ep, rest) \<Longrightarrow> length rest \<le> length s"
  by (auto simp: lex_exp_def lex_sign_def le_SucI length_dropWhile_le
      split: list.splits if_splits intro: le_trans [OF length_dropWhile_le])

lemma lex_int_length: "lex_int s = Some (ip, rest) \<Longrightarrow> length rest < length s"
  by (auto simp: lex_int_def less_Suc_eq_le length_dropWhile_le split: list.splits if_splits)

lemma lex_number_length: "lex_number s = Some (lx, rest) \<Longrightarrow> length rest < length s"
  unfolding lex_number_def
  by (auto split: list.splits if_splits option.splits prod.splits
      dest!: lex_int_length lex_frac_length lex_exp_length)

function tokenize :: "jsstring \<Rightarrow> token list option" where
  "tokenize [] = Some []"
| "tokenize (c # cs) =
     (if is_json_ws c then tokenize cs
      else if c = 91 then map_option ((#) TLBrack) (tokenize cs)
      else if c = 93 then map_option ((#) TRBrack) (tokenize cs)
      else if c = 123 then map_option ((#) TLBrace) (tokenize cs)
      else if c = 125 then map_option ((#) TRBrace) (tokenize cs)
      else if c = 44 then map_option ((#) TComma) (tokenize cs)
      else if c = 58 then map_option ((#) TColon) (tokenize cs)
      else if c = 34 then
        (case lex_string [] cs of
           None \<Rightarrow> None
         | Some (str, rest) \<Rightarrow> map_option ((#) (TStr str)) (tokenize rest))
      else if c = 45 \<or> is_digit c then
        (case lex_number (c # cs) of
           None \<Rightarrow> None
         | Some (lx, rest) \<Rightarrow> map_option ((#) (TNum lx)) (tokenize rest))
      else if startsWith (c # cs) (S ''true'') then map_option ((#) TTrue) (tokenize (drop 3 cs))
      else if startsWith (c # cs) (S ''false'') then map_option ((#) TFalse) (tokenize (drop 4 cs))
      else if startsWith (c # cs) (S ''null'') then map_option ((#) TNull) (tokenize (drop 3 cs))
      else None)"
  by pat_completeness auto
termination
  by (relation "measure length")
    (auto dest!: lex_string_length lex_number_length)

text \<open>
  The grammar of values over the tokens, as a pushdown automaton: the stack holds the open
  arrays and objects with their members so far (latest first), \<open>expect\<close> says which
  token may come next.
\<close>

datatype frame =
    FArr "json list"
  | FObj "(jsstring \<times> json) list"
  | FKey "(jsstring \<times> json) list" jsstring

datatype expect = EValue | EValueOrClose | EKeyOrClose | EKey | EColon | ESep | EDone json

fun put_value :: "json \<Rightarrow> frame list \<Rightarrow> (expect \<times> frame list) option" where
  "put_value v [] = Some (EDone v, [])"
| "put_value v (FArr es # st) = Some (ESep, FArr (v # es) # st)"
| "put_value v (FKey ms k # st) = Some (ESep, FObj ((k, v) # ms) # st)"
| "put_value v (FObj ms # st) = None"

definition wants_value :: "expect \<Rightarrow> bool" where
  "wants_value e = (e = EValue \<or> e = EValueOrClose)"

fun pda_step :: "expect \<Rightarrow> frame list \<Rightarrow> token \<Rightarrow> (expect \<times> frame list) option" where
  "pda_step e st TLBrack = (if wants_value e then Some (EValueOrClose, FArr [] # st) else None)"
| "pda_step e st TLBrace = (if wants_value e then Some (EKeyOrClose, FObj [] # st) else None)"
| "pda_step e st TRBrack =
     (case st of
        FArr es # st' \<Rightarrow>
          if e = EValueOrClose \<or> e = ESep then put_value (JArr (rev es)) st' else None
      | _ \<Rightarrow> None)"
| "pda_step e st TRBrace =
     (case st of
        FObj ms # st' \<Rightarrow>
          if e = EKeyOrClose \<or> e = ESep then put_value (JObj (js_properties (rev ms))) st'
          else None
      | _ \<Rightarrow> None)"
| "pda_step e st TComma =
     (if e = ESep then
        (case st of
           FArr es # st' \<Rightarrow> Some (EValue, st)
         | FObj ms # st' \<Rightarrow> Some (EKey, st)
         | _ \<Rightarrow> None)
      else None)"
| "pda_step e st TColon = (if e = EColon then Some (EValue, st) else None)"
| "pda_step e st (TStr s) =
     (if e = EKeyOrClose \<or> e = EKey then
        (case st of FObj ms # st' \<Rightarrow> Some (EColon, FKey ms s # st') | _ \<Rightarrow> None)
      else if wants_value e then put_value (JStr s) st
      else None)"
| "pda_step e st (TNum n) =
     (if wants_value e then put_value (JNum (number_value n)) st else None)"
| "pda_step e st TTrue = (if wants_value e then put_value (JBool True) st else None)"
| "pda_step e st TFalse = (if wants_value e then put_value (JBool False) st else None)"
| "pda_step e st TNull = (if wants_value e then put_value JNull st else None)"

fun pda_run :: "expect \<Rightarrow> frame list \<Rightarrow> token list \<Rightarrow> json option" where
  "pda_run e st [] = (case e of EDone v \<Rightarrow> Some v | _ \<Rightarrow> None)"
| "pda_run e st (t # ts) =
     (case pda_step e st t of None \<Rightarrow> None | Some (e', st') \<Rightarrow> pda_run e' st' ts)"

text \<open>\<^verbatim>\<open>JSON.parse(text)\<close>: the value, or \<open>None\<close> for the SyntaxError it throws.\<close>

definition JSON_parse :: "jsstring \<Rightarrow> json option" where
  "JSON_parse s = (case tokenize s of None \<Rightarrow> None | Some ts \<Rightarrow> pda_run EValue [] ts)"

section \<open>The JSON-array tier\<close>

text \<open>\<^verbatim>\<open>/\[\s*\{\s*"question"[\s\S]*\}\s*\]/\<close>\<close>

definition jsonRegex :: rx where
  "jsonRegex = seqs [ch CHR ''['', Rep True 0 is_space, ch CHR ''{'', Rep True 0 is_space,
     ch CHR 0x22, lit ''question'', ch CHR 0x22, Rep True 0 any_char,
     ch CHR ''}'', Rep True 0 is_space, ch CHR '']'']"

text \<open>
  How a tier ends: with the array it returns, with too little to return, or with an
  exception.
\<close>

datatype 'a tier = Accepted 'a | Insufficient | Threw

text \<open>
  Lines 242-250. \<^verbatim>\<open>match[0]\<close> starts with \<^verbatim>\<open>[\<close>, so a text that parses is an
  array (lemma \<open>jsonRegex_parses_array\<close>) and the last case is never taken.
\<close>

definition jsonTier :: "jsstring \<Rightarrow> json list tier" where
  "jsonTier mcqText =
     (case js_match jsonRegex mcqText of
        None \<Rightarrow> Insufficient
      | Some m \<Rightarrow>
          (case JSON_parse m of
             None \<Rightarrow> Threw
           | Some (JArr parsedQuestions) \<Rightarrow>
               if 10 \<le> length parsedQuestions then Accepted (take 10 parsedQuestions)
               else Insufficient
           | Some _ \<Rightarrow> Threw))"

section \<open>The heuristic fallback generator\<close>

text \<open>
  What the function takes from its environment. \<^verbatim>\<open>Math.random()\<close> returns a number
  in [0, 1), so \<^verbatim>\<open>Math.floor(Math.random() * n)\<close> is an index below \<open>n\<close>: the
  \<open>t\<close>-th call of the run is \<open>randomBelow env t n\<close>. \<open>toLowerCase\<close> is the Unicode
  lower-casing of the runtime.
\<close>

record js_env =
  Math_random :: "nat \<Rightarrow> nat"
  toLowerCase :: "jsstring \<Rightarrow> jsstring"

definition randomBelow :: "js_env \<Rightarrow> nat \<Rightarrow> nat \<Rightarrow> nat" where
  "randomBelow env t n = Math_random env t mod n"

text \<open>\<^verbatim>\<open>/[.?!]\s+/\<close>, \<^verbatim>\<open>/\s+/\<close>, \<^verbatim>\<open>/\b\w{4,}\b/g\<close>, \<^verbatim>\<open>/[,.?!:;]$/\<close>\<close>

definition sentenceRegex :: rx where
  "sentenceRegex = seqs [Chr (one_of ''.?!''), Rep True 1 is_space]"

definition spaceRegex :: rx where
  "spaceRegex = Rep True 1 is_space"

definition phraseRegex :: rx where
  "phraseRegex = seqs [WordB, Rep True 4 is_word, WordB]"

definition punctRegex :: rx where
  "punctRegex = seqs [Chr (one_of '',.?!:;''), Eol]"

text \<open>Line 318: the lower-cased words of the sentence that are longer than 4.\<close>

definition wordsToAvoid :: "js_env \<Rightarrow> jsstring \<Rightarrow> jsstring list" where
  "wordsToAvoid env sentence =
     map (toLowerCase env) (filter (\<lambda>w. length w > 4) (split_re sentence spaceRegex))"

text \<open>
  Lines 325-327: the words from \<open>max 0 (k - 2)\<close> to \<open>min (length words) (k + 3)\<close>,
  joined, without a final punctuation mark. Subtraction on \<open>nat\<close> stops at 0.
\<close>

definition window :: "jsstring list \<Rightarrow> nat \<Rightarrow> jsstring" where
  "window words k =
     (let startIdx = k - 2; endIdx = min (length words) (k + 3)
      in remove_first punctRegex (join (S '' '') (take (endIdx - startIdx) (drop startIdx words))))"

text \<open>Lines 323-334: the loop over \<open>k\<close>, left at the first option that is pushed.\<close>

fun firstOption :: "js_env \<Rightarrow> jsstring list \<Rightarrow> jsstring list \<Rightarrow> jsstring list \<Rightarrow>
    nat list \<Rightarrow> jsstring option" where
  "firstOption env avoid words opts [] = None"
| "firstOption env avoid words opts (k # ks) =
     (if length (words ! k) > 4 \<and> toLowerCase env (words ! k) \<notin> set avoid
      then (if length (window words k) > 5 \<and> window words k \<notin> set opts
            then Some (window words k)
            else firstOption env avoid words opts ks)
      else firstOption env avoid words opts ks)"

text \<open>Lines 320-336: the loop over \<open>j\<close>, while fewer than 3 options are collected.\<close>

fun harvest :: "js_env \<Rightarrow> jsstring list \<Rightarrow> jsstring list \<Rightarrow> nat \<Rightarrow> nat list \<Rightarrow>
    jsstring list \<Rightarrow> jsstring list" where
  "harvest env avoid sentences i [] opts = opts"
| "harvest env avoid sentences i (j # js) opts =
     (if length opts < 3 then
        (if i \<noteq> j \<and> length (sentences ! j) > 15 then
           (case firstOption env avoid (split_re (sentences ! j) spaceRegex) opts
                   [0..<length (split_re (sentences ! j) spaceRegex)] of
              None \<Rightarrow> harvest env avoid sentences i js opts
            | Some option \<Rightarrow> harvest env avoid sentences i js (opts @ [option]))
         else harvest env avoid sentences i js opts)
      else opts)"

text \<open>Lines 338-340.\<close>

function padOptions :: "jsstring list \<Rightarrow> jsstring list" where
  "padOptions opts =
     (if length opts < 3 then padOptions (opts @ [S ''Option '' @ decimal (length opts + 1)])
      else opts)"
  by pat_completeness auto
termination
  by (relation "measure (\<lambda>opts. 3 - length opts)") auto

declare padOptions.simps [simp del]

text \<open>Lines 317-340: the three distractors of the sentence with index \<open>i\<close>.\<close>

definition distractors :: "js_env \<Rightarrow> jsstring list \<Rightarrow> nat \<Rightarrow> jsstring \<Rightarrow> jsstring list" where
  "distractors env sentences i sentence =
     padOptions (harvest env (wordsToAvoid env sentence) sentences i [0..<length sentences] [])"

text \<open>
  Lines 342-345: the correct phrase and the number of calls of \<^verbatim>\<open>Math.random\<close> so
  far.
\<close>

definition chooseCorrect :: "js_env \<Rightarrow> nat \<Rightarrow> jsstring \<Rightarrow> jsstring \<times> nat" where
  "chooseCorrect env t sentence =
     (let correctPhrases = map fst (matchAll phraseRegex sentence)
      in if length correctPhrases > 0
         then (correctPhrases ! randomBelow env t (length correctPhrases), t + 1)
         else (S ''Correct option'', t))"

text \<open>\<^verbatim>\<open>xs.splice(pos, 0, x)\<close>: a position past the end inserts at the end.\<close>

definition splice_in :: "nat \<Rightarrow> 'a \<Rightarrow> 'a list \<Rightarrow> 'a list" where
  "splice_in pos x xs = take pos xs @ [x] @ drop pos xs"

text \<open>Lines 317-353: the record of one sentence.\<close>

definition fallbackRecord :: "js_env \<Rightarrow> nat \<Rightarrow> jsstring list \<Rightarrow> nat \<Rightarrow> jsstring \<Rightarrow> mcq \<times> nat" where
  "fallbackRecord env t sentences i sentence =
     (case chooseCorrect env t sentence of
        (correctOption, t1) \<Rightarrow>
          (let opts = splice_in (randomBelow env t1 4) correctOption
                        (distractors env sentences i sentence)
           in (\<lparr>question = (if endsWith sentence (S ''?'') then sentence else sentence @ S ''?''),
                options = take 4 opts,
                correctAnswer = indexOf opts correctOption\<rparr>, t1 + 1)))"

text \<open>Lines 312-357: the loop over the sentences.\<close>

fun fallbackLoop :: "js_env \<Rightarrow> nat \<Rightarrow> jsstring list \<Rightarrow> nat list \<Rightarrow> nat \<Rightarrow> mcq list \<Rightarrow> nat \<Rightarrow>
    mcq list \<times> nat" where
  "fallbackLoop env count sentences [] questionIndex questions t = (questions, t)"
| "fallbackLoop env count sentences (i # is) questionIndex questions t =
     (if questionIndex < count then
        (if js_includes (trim (sentences ! i)) (S ''?'') \<or> length (trim (sentences ! i)) > 30
         then (case fallbackRecord env t sentences i (trim (sentences ! i)) of
                 (q, t') \<Rightarrow>
                   fallbackLoop env count sentences is (questionIndex + 1) (questions @ [q]) t')
         else fallbackLoop env count sentences is questionIndex questions t)
      else (questions, t))"

text \<open>Lines 359-371: the generic records that fill the list up to \<open>count\<close>.\<close>

definition genericQuestion :: "js_env \<Rightarrow> nat \<Rightarrow> nat \<Rightarrow> mcq" where
  "genericQuestion env t idx =
     \<lparr>question = S ''Question '' @ decimal (idx + 1) @ S '' related to the subject?'',
      options = [S ''First possible answer'', S ''Second possible answer'',
                 S ''Third possible answer'', S ''Fourth possible answer''],
      correctAnswer = int (randomBelow env t 4)\<rparr>"

function fillQuestions :: "js_env \<Rightarrow> nat \<Rightarrow> mcq list \<Rightarrow> nat \<Rightarrow> mcq list" where
  "fillQuestions env count questions t =
     (if length questions < count
      then fillQuestions env count (questions @ [genericQuestion env t (length questions)]) (t + 1)
      else questions)"
  by pat_completeness auto
termination
  by (relation "measure (\<lambda>(env, count, questions, t). count - length questions)") auto

declare fillQuestions.simps [simp del]

definition createFallbackQuestionsFromText :: "js_env \<Rightarrow> jsstring \<Rightarrow> nat \<Rightarrow> mcq list" where
  "createFallbackQuestionsFromText env text count =
     (case fallbackLoop env count (split_re text sentenceRegex)
             [0..<length (split_re text sentenceRegex)] 0 [] 0 of
        (questions, t) \<Rightarrow> take count (fillQuestions env count questions t))"

section \<open>The pipeline\<close>

text \<open>
  An element of the returned array: a value of the parsed JSON array, or a record built
  by the structured-text tier or the fallback generator.
\<close>

datatype item = Parsed json | Built mcq

text \<open>
  Lines 252-298, reached when the JSON tier returns nothing: the structured-text tier,
  and the fallback when it collects fewer than 5 questions. An exception goes to the
  catch block of lines 300-303.
\<close>

definition structuredTier :: "js_env \<Rightarrow> jsstring \<Rightarrow> item list" where
  "structuredTier env mcqText =
     (case structuredQuestions mcqText of
        None \<Rightarrow> map Built (createFallbackQuestionsFromText env mcqText 10)
      | Some questions \<Rightarrow>
          if 5 \<le> length questions then map Built (take 10 questions)
          else map Built (createFallbackQuestionsFromText env mcqText 10))"

definition parseMCQQuestions :: "js_env \<Rightarrow> jsstring \<Rightarrow> item list" where
  "parseMCQQuestions env mcqText =
     (case jsonTier mcqText of
        Accepted parsedQuestions \<Rightarrow> map Parsed parsedQuestions
      | Threw \<Rightarrow> map Built (createFallbackQuestionsFromText env mcqText 10)
      | Insufficient \<Rightarrow> structuredTier env mcqText)"

section \<open>The constraints on a record\<close>

text \<open>The per-field constraints of a question record, and the final question mark.\<close>

definition wellShaped :: "mcq \<Rightarrow> bool" where
  "wellShaped q = (length (options q) = 4 \<and> 0 \<le> correctAnswer q \<and> correctAnswer q \<le> 3)"

definition asksQuestion :: "mcq \<Rightarrow> bool" where
  "asksQuestion q = endsWith (question q) (S ''?'')"

section \<open>Example inputs\<close>

text \<open>An environment for ASCII texts: lower-casing of A-Z, and a constant random source.\<close>

definition asciiLower :: "jsstring \<Rightarrow> jsstring" where
  "asciiLower = map (\<lambda>c. if 65 \<le> c \<and> c \<le> 90 then c + 32 else c)"

definition env0 :: js_env where
  "env0 = \<lparr>Math_random = (\<lambda>t. 0), toLowerCase = asciiLower\<rparr>"

definition env3 :: js_env where
  "env3 = \<lparr>Math_random = (\<lambda>t. 3), toLowerCase = asciiLower\<rparr>"

text \<open>
  Five numbered questions, each with four lettered options, a blank line between them;
  the first says which answer is correct.
\<close>

definition plainZone :: jsstring where
  "plainZone = S ''\<newline>A. w\<newline>B. x\<newline>C. y\<newline>D. z''"

definition markedZone :: jsstring where
  "markedZone = S ''\<newline>Correct answer: B\<newline>A. w\<newline>B. x\<newline>C. y\<newline>D. z''"

definition fiveQuestions :: jsstring where
  "fiveQuestions =
     S ''1. a?'' @ markedZone @ S ''\<newline>\<newline>2. b?'' @ plainZone @
     S ''\<newline>\<newline>3. c?'' @ plainZone @ S ''\<newline>\<newline>4. d?'' @ plainZone @
     S ''\<newline>\<newline>5. e?'' @ plainZone"

definition wxyz :: "jsstring list" where
  "wxyz = [S ''w'', S ''x'', S ''y'', S ''z'']"

definition fiveRecords :: "mcq list" where
  "fiveRecords = map (\<lambda>q. \<lparr>question = S q, options = wxyz, correctAnswer = 0\<rparr>)
     [''a?'', ''b?'', ''c?'', ''d?'', ''e?'']"

text \<open>The same five questions without the marker, followed by a malformed JSON array.\<close>

definition questionsThenBadJson :: jsstring where
  \<open>questionsThenBadJson =
     S ''1. a?'' @ plainZone @ S ''\<newline>\<newline>2. b?'' @ plainZone @
     S ''\<newline>\<newline>3. c?'' @ plainZone @ S ''\<newline>\<newline>4. d?'' @ plainZone @
     S ''\<newline>\<newline>5. e?'' @ plainZone @ S ''\<newline>\<newline>[{"question"}]''\<close>

text \<open>
  A JSON array of eleven elements inside prose. Its first element has no options and the
  answer 9, most of the others are numbers.
\<close>

definition jsonArrayText :: jsstring where
  \<open>jsonArrayText =
     S ''[{"question":"Q?","options":[],"correctAnswer":9},1,2,3,4,5,6,7,8,9,{}]''\<close>

definition jsonText :: jsstring where
  "jsonText = S ''Sure: '' @ jsonArrayText @ S '' ok''"

definition firstRecord :: json where
  "firstRecord = JObj [(S ''question'', JStr (S ''Q?'')), (S ''options'', JArr []),
     (S ''correctAnswer'', JNum (Finite False 9 0))]"

definition jsonElements :: "json list" where
  "jsonElements = firstRecord # map (\<lambda>n. JNum (Finite False n 0)) [1..<10] @ [JObj []]"

text \<open>
  A JSON array of ten elements inside prose that has another \<^verbatim>\<open>}]\<close> further on: the
  array, the text, what the JSON pattern selects from the text, and the elements of the
  array.
\<close>

definition trailArray :: jsstring where
  \<open>trailArray = S ''[{"question":1},1,2,3,4,5,6,7,8,{}]''\<close>

definition trailText :: jsstring where
  "trailText = S ''Here: '' @ trailArray @ S '' (see {note}] above)''"

definition trailMatch :: jsstring where
  "trailMatch = trailArray @ S '' (see {note}]''"

definition trailElements :: "json list" where
  "trailElements = JObj [(S ''question'', JNum (Finite False 1 0))] #
     map (\<lambda>n. JNum (Finite False n 0)) [1..<9] @ [JObj []]"

text \<open>A JSON array of one element, and one question without options.\<close>

definition shortJson :: jsstring where
  \<open>shortJson = S ''[{"question":1}]''\<close>

definition loneQuestion :: jsstring where
  "loneQuestion = S ''1. a?''"

text \<open>The record the fallback generator builds from its sentence \<^verbatim>\<open>a?\<close> under \<open>env0\<close>.\<close>

definition loneRecord :: mcq where
  "loneRecord = \<lparr>question = S ''a?'',
     options = [S ''Correct option'', S ''Option 1'', S ''Option 2'', S ''Option 3''],
     correctAnswer = 0\<rparr>"

text \<open>One sentence for the fallback generator, and the record it gives under \<open>env3\<close>.\<close>

definition planetSentence :: jsstring where
  "planetSentence = S ''Which planet is largest?''"

definition planetRecord :: mcq where
  "planetRecord = \<lparr>question = S ''Which planet is largest?'',
     options = [S ''Option 1'', S ''Option 2'', S ''Option 3'', S ''Which''],
     correctAnswer = 3\<rparr>"

section \<open>Notions for the proofs\<close>

text \<open>
  The invariant of the automaton on a text that starts with \<^verbatim>\<open>[\<close>: the
  bottom of the stack is that array, until the value is complete.
\<close>

fun is_done :: "expect \<Rightarrow> bool" where
  "is_done (EDone v) = True"
| "is_done e = False"

definition array_open :: "expect \<Rightarrow> frame list \<Rightarrow> bool" where
  "array_open e st =
     ((\<not> is_done e \<and> (\<exists>st' es. st = st' @ [FArr es])) \<or>
      (st = [] \<and> (\<exists>xs. e = EDone (JArr xs))))"

section \<open>Facts about the fallback generator\<close>

lemma fillQuestions_length: "count \<le> length (fillQuestions env count questions t)"
proof (induction env count questions t rule: fillQuestions.induct)
  case (1 env count questions t)
  then show ?case
    by (subst fillQuestions.simps) simp
qed

lemma fillQuestions_all:
  "\<forall>t idx. P (genericQuestion env t idx) \<Longrightarrow> list_all P questions \<Longrightarrow>
     list_all P (fillQuestions env count questions t)"
proof (induction env count questions t rule: fillQuestions.induct)
  case (1 env count questions t)
  show ?case
  proof (cases "length questions < count")
    case True
    from "1.prems"
    have "list_all P (questions @ [genericQuestion env t (length questions)])" by simp
    from "1.IH" [OF True "1.prems"(1) this] True show ?thesis
      by (subst fillQuestions.simps) simp
  next
    case False
    with "1.prems" show ?thesis
      by (subst fillQuestions.simps) simp
  qed
qed

lemma fallbackLoop_all:
  assumes "\<And>t i s. P (fst (fallbackRecord env t sentences i s))"
  shows "list_all P questions \<Longrightarrow>
    list_all P (fst (fallbackLoop env count sentences js questionIndex questions t))"
proof (induction js arbitrary: questionIndex questions t)
  case Nil
  then show ?case by simp
next
  case (Cons i js)
  show ?case
  proof (cases "questionIndex < count \<and>
      (js_includes (trim (sentences ! i)) (S ''?'') \<or> length (trim (sentences ! i)) > 30)")
    case True
    obtain q t' where r: "fallbackRecord env t sentences i (trim (sentences ! i)) = (q, t')"
      by (cases "fallbackRecord env t sentences i (trim (sentences ! i))")
    with assms [of t i "trim (sentences ! i)"] have "P q" by simp
    with Cons.prems have "list_all P (questions @ [q])" by simp
    from Cons.IH [OF this] True r show ?thesis by simp
  next
    case False
    with Cons show ?thesis by auto
  qed
qed

lemma createFallback_length:
  "length (createFallbackQuestionsFromText env text count) = count"
  by (simp add: createFallbackQuestionsFromText_def fillQuestions_length split: prod.splits)

lemma createFallback_all:
  assumes "\<And>t i s sentences. P (fst (fallbackRecord env t sentences i s))"
    and "\<And>t idx. P (genericQuestion env t idx)"
  shows "list_all P (createFallbackQuestionsFromText env text count)"
proof -
  let ?ss = "split_re text sentenceRegex"
  obtain questions t where l: "fallbackLoop env count ?ss [0..<length ?ss] 0 [] 0 = (questions, t)"
    by (cases "fallbackLoop env count ?ss [0..<length ?ss] 0 [] 0")
  have "list_all P (fst (fallbackLoop env count ?ss [0..<length ?ss] 0 [] 0))"
    by (rule fallbackLoop_all) (simp_all add: assms(1))
  with l have "list_all P questions" by simp
  with assms(2) have "list_all P (fillQuestions env count questions t)"
    using fillQuestions_all [of P env questions count t] by blast

  then have "list_all P (take count (fillQuestions env count questions t))"
    by (auto simp: list_all_iff dest: in_set_takeD)
  with l show ?thesis
    by (simp add: createFallbackQuestionsFromText_def)
qed

lemma padOptions_length: "length opts \<le> 3 \<Longrightarrow> length (padOptions opts) = 3"
proof (induction opts rule: padOptions.induct)
  case (1 opts)
  then show ?case
    by (subst padOptions.simps) auto
qed

lemma harvest_length:
  "length opts \<le> 3 \<Longrightarrow> length (harvest env avoid sentences i js opts) \<le> 3"
  by (induction js arbitrary: opts) (auto split: option.splits)

lemma distractors_length: "length (distractors env sentences i sentence) = 3"
  by (simp add: distractors_def padOptions_length harvest_length)

lemma indexOf_member:
  "x \<in> set ys \<Longrightarrow> 0 \<le> indexOf ys x \<and> indexOf ys x < int (length ys) \<and> ys ! nat (indexOf ys x) = x"
proof (induction ys)
  case Nil
  then show ?case by simp
next
  case (Cons y ys)
  show ?case
  proof (cases "y = x")
    case True
    then show ?thesis by simp
  next
    case False
    with Cons.prems have "x \<in> set ys" by simp
    from Cons.IH [OF this] False show ?thesis
      by (simp add: Let_def nat_add_distrib)
  qed
qed

lemma length_splice_in: "length (splice_in pos x xs) = Suc (length xs)"
  by (simp add: splice_in_def)

lemma splice_in_member: "x \<in> set (splice_in pos x xs)"
  by (simp add: splice_in_def)

subsection \<open>The record of a sentence\<close>

lemma randomBelow_less: "0 < n \<Longrightarrow> randomBelow env t n < n"
  by (simp add: randomBelow_def)

lemma fallbackRecord_shape:
  assumes "fallbackRecord env t sentences i sentence = (q, t')"
    and "chooseCorrect env t sentence = (correctOption, t1)"
  shows "options q = splice_in (randomBelow env t1 4) correctOption (distractors env sentences i sentence)"
    and "length (options q) = 4"
    and "correctAnswer q = indexOf (options q) correctOption"
    and "0 \<le> correctAnswer q" and "correctAnswer q \<le> 3"
    and "options q ! nat (correctAnswer q) = correctOption"
    and "question q = (if endsWith sentence (S ''?'') then sentence else sentence @ S ''?'')"
proof -
  let ?opts = "splice_in (randomBelow env t1 4) correctOption (distractors env sentences i sentence)"
  have len: "length ?opts = 4"
    by (simp add: length_splice_in distractors_length)
  from assms have q: "q = \<lparr>question = (if endsWith sentence (S ''?'') then sentence else sentence @ S ''?''),
      options = take 4 ?opts, correctAnswer = indexOf ?opts correctOption\<rparr>"
    by (simp add: fallbackRecord_def Let_def)
  from len q show o: "options q = ?opts" by simp
  from len o show "length (options q) = 4" by simp
  from q o show c: "correctAnswer q = indexOf (options q) correctOption" by simp
  have "correctOption \<in> set ?opts" by (rule splice_in_member)
  from indexOf_member [OF this] len o c
  show "0 \<le> correctAnswer q" and "correctAnswer q \<le> 3"
    and "options q ! nat (correctAnswer q) = correctOption"
    by simp_all
  from q show "question q = (if endsWith sentence (S ''?'') then sentence else sentence @ S ''?'')"
    by simp
qed

lemma endsWith_append: "endsWith (s @ p) p"
  by (simp add: endsWith_def)

lemma fallbackRecord_wellShaped: "wellShaped (fst (fallbackRecord env t sentences i sentence))"
  using fallbackRecord_shape(2,4,5)
    [of env t sentences i sentence "fst (fallbackRecord env t sentences i sentence)"
      "snd (fallbackRecord env t sentences i sentence)"
      "fst (chooseCorrect env t sentence)" "snd (chooseCorrect env t sentence)"]
  by (simp add: wellShaped_def)

lemma fallbackRecord_asksQuestion: "asksQuestion (fst (fallbackRecord env t sentences i sentence))"
  using fallbackRecord_shape(7)
    [of env t sentences i sentence "fst (fallbackRecord env t sentences i sentence)"
      "snd (fallbackRecord env t sentences i sentence)"
      "fst (chooseCorrect env t sentence)" "snd (chooseCorrect env t sentence)"]
  by (simp add: asksQuestion_def endsWith_append)

lemma genericQuestion_wellShaped: "wellShaped (genericQuestion env t idx)"
  by (simp add: wellShaped_def genericQuestion_def randomBelow_def)

lemma genericQuestion_asksQuestion: "asksQuestion (genericQuestion env t idx)"
  unfolding asksQuestion_def genericQuestion_def
  using endsWith_append [of "S ''Question '' @ decimal (idx + 1) @ S '' related to the subject''" "S ''?''"]
  by simp

lemma createFallback_wellShaped:
  "list_all wellShaped (createFallbackQuestionsFromText env text count)"
  by (rule createFallback_all) (simp_all add: fallbackRecord_wellShaped genericQuestion_wellShaped)

lemma createFallback_asksQuestion:
  "list_all asksQuestion (createFallbackQuestionsFromText env text count)"
  by (rule createFallback_all) (simp_all add: fallbackRecord_asksQuestion genericQuestion_asksQuestion)

section \<open>Facts about the matcher\<close>

lemma rep_run_suffix:
  "\<tau> \<in> set (rep_run greedy n p prev s cap) \<Longrightarrow> \<exists>w. s = w @ st_rest \<tau>"
proof (induction s arbitrary: n prev)
  case Nil
  then show ?case by (auto simp: st_rest_def split: if_splits)
next
  case (Cons c cs)
  from Cons.prems consider "\<tau> = (prev, c # cs, cap)"
    | "\<tau> \<in> set (rep_run greedy (n - 1) p (Some c) cs cap)"
    by (auto simp: Let_def split: if_splits)
  then show ?case
  proof cases
    case 1
    then show ?thesis by (simp add: st_rest_def)
  next
    case 2
    from Cons.IH [OF this] obtain w where "cs = w @ st_rest \<tau>" ..
    then have "c # cs = (c # w) @ st_rest \<tau>" by simp
    then show ?thesis ..
  qed
qed

lemma rx_run_suffix:
  "\<tau> \<in> set (rx_run r \<sigma>) \<Longrightarrow> \<exists>w. st_rest \<sigma> = w @ st_rest \<tau>"
proof (induction r arbitrary: \<sigma> \<tau>)
  case (Chr p)
  then show ?case
    by (cases \<sigma>) (auto simp: st_rest_def split: list.splits if_splits)
next
  case (Seq a b)
  then obtain \<mu> where m: "\<mu> \<in> set (rx_run a \<sigma>)" "\<tau> \<in> set (rx_run b \<mu>)"
    by auto
  from Seq.IH(1) [OF m(1)] obtain u where "st_rest \<sigma> = u @ st_rest \<mu>" ..
  moreover from Seq.IH(2) [OF m(2)] obtain v where "st_rest \<mu> = v @ st_rest \<tau>" ..
  ultimately have "st_rest \<sigma> = (u @ v) @ st_rest \<tau>" by simp
  then show ?case ..
next
  case (Rep greedy n p)
  then show ?case
    by (cases \<sigma>) (auto simp: st_rest_def dest: rep_run_suffix)
next
  case (Group a)
  obtain prev rest cap where s: "\<sigma> = (prev, rest, cap)" by (cases \<sigma>)
  with Group.prems obtain \<mu> where m: "\<mu> \<in> set (rx_run a \<sigma>)" "st_rest \<tau> = st_rest \<mu>"
    by (auto simp: st_rest_def)
  from Group.IH [OF m(1)] m(2) show ?case by simp
qed (auto simp: st_rest_def split: if_splits)

text \<open>What a group holds after a pattern that ends with one fixed code unit.\<close>

lemma group_ends_with:
  assumes "\<tau> \<in> set (rx_run (Group (Seq a (Seq (Chr p) Eps))) \<sigma>)"
  shows "\<exists>w c. st_cap \<tau> = Some (w @ [c]) \<and> p c"
proof -
  obtain prev rest cap where s: "\<sigma> = (prev, rest, cap)" by (cases \<sigma>)
  with assms obtain prev' rest' cap' where
    t: "\<tau> = (prev', rest', Some (take (length rest - length rest') rest))"
    and m: "(prev', rest', cap') \<in> set (rx_run (Seq a (Seq (Chr p) Eps)) \<sigma>)"
    by auto
  from m obtain \<nu> where n: "\<nu> \<in> set (rx_run a \<sigma>)"
    and e: "(prev', rest', cap') \<in> set (rx_run (Seq (Chr p) Eps) \<nu>)"
    by auto
  obtain pn rn cn where nu: "\<nu> = (pn, rn, cn)" by (cases \<nu>)
  with e obtain c where c: "rn = c # rest'" "p c"
    by (auto split: list.splits if_splits)
  from rx_run_suffix [OF n] s nu c obtain w where "rest = w @ c # rest'"
    by (auto simp: st_rest_def)
  then have "take (length rest - length rest') rest = w @ [c]" by simp
  with t c show ?thesis by (simp add: st_cap_def)
qed

lemma seq_tail: "\<tau> \<in> set (rx_run (Seq a b) \<sigma>) \<Longrightarrow> \<exists>\<mu>. \<tau> \<in> set (rx_run b \<mu>)"
  by auto

lemma rx_search_run:
  "rx_search r prev s = Some (st, \<tau>) \<Longrightarrow> \<exists>p. \<tau> \<in> set (rx_run r (p, st, None))"
proof (induction s arbitrary: prev)
  case Nil
  show ?case
  proof (cases "rx_run r (prev, [], None)")
    case Nil
    with Nil.prems show ?thesis by simp
  next
    case (Cons \<mu> ms)
    with Nil.prems have "\<tau> \<in> set (rx_run r (prev, st, None))" by auto
    then show ?thesis ..
  qed
next
  case (Cons c cs)
  show ?case
  proof (cases "rx_run r (prev, c # cs, None)")
    case Nil
    with Cons show ?thesis by simp
  next
    case (Cons \<mu> ms)
    with Cons.prems have "\<tau> \<in> set (rx_run r (prev, st, None))" by auto
    then show ?thesis ..
  qed
qed

lemma rx_all_run:
  "(m, cap) \<in> set (rx_all r prev s) \<Longrightarrow> \<exists>\<sigma> \<tau>. \<tau> \<in> set (rx_run r \<sigma>) \<and> st_cap \<tau> = cap"
proof (induction r prev s rule: rx_all.induct)
  case (1 r prev s)
  show ?case
  proof (cases "rx_search r prev s")
    case None
    with "1.prems" show ?thesis by (simp add: rx_all.simps)
  next
    case (Some x)
    obtain st prev' rest' cap' where x: "x = (st, prev', rest', cap')"
      by (cases x) auto
    from rx_search_run [of r prev s st "(prev', rest', cap')"] Some x
    have here: "\<exists>\<sigma>. (prev', rest', cap') \<in> set (rx_run r \<sigma>)" by auto
    from "1.prems" Some x consider "cap = cap'"
      | "length rest' < length st" "(m, cap) \<in> set (rx_all r prev' rest')"
      | c cs where "\<not> length rest' < length st" "rest' = c # cs" "(m, cap) \<in> set (rx_all r (Some c) cs)"
      by (subst (asm) rx_all.simps) (auto split: if_splits list.splits)
    then show ?thesis
    proof cases
      case 1
      from here obtain \<sigma> where "(prev', rest', cap') \<in> set (rx_run r \<sigma>)" ..
      moreover have "st_cap (prev', rest', cap') = cap" using 1 by (simp add: st_cap_def)
      ultimately show ?thesis by blast
    next
      case 2
      from "1.IH"(1) [OF Some x [symmetric] refl refl 2] show ?thesis .
    next
      case 3
      from "1.IH"(2) [OF Some x [symmetric] refl refl 3] show ?thesis .
    qed
  qed
qed

section \<open>Facts about the structured-text tier\<close>

lemma seqs_last:
  "\<tau> \<in> set (rx_run (seqs (rs @ [g])) \<sigma>) \<Longrightarrow> \<exists>\<mu>. \<tau> \<in> set (rx_run g \<mu>)"
proof (induction rs arbitrary: \<sigma>)
  case Nil
  then have "\<tau> \<in> set (rx_run g \<sigma>)" by (simp add: seqs_def)
  then show ?case ..
next
  case (Cons r rs)
  then obtain \<mu> where "\<tau> \<in> set (rx_run (seqs (rs @ [g])) \<mu>)"
    by (auto simp: seqs_def)
  then show ?case by (rule Cons.IH)
qed

lemma seqs_last_ahead:
  "\<tau> \<in> set (rx_run (seqs (rs @ [g, Ahead x])) \<sigma>) \<Longrightarrow> \<exists>\<mu>. \<tau> \<in> set (rx_run g \<mu>)"
proof (induction rs arbitrary: \<sigma>)
  case Nil
  then obtain \<nu> where "\<nu> \<in> set (rx_run g \<sigma>)" "\<tau> \<in> set (rx_run (Seq (Ahead x) Eps) \<nu>)"
    by (auto simp: seqs_def)
  moreover from this(2) have "\<tau> = \<nu>" by (auto split: if_splits)
  ultimately show ?case by blast
next
  case (Cons r rs)
  then obtain \<mu> where "\<tau> \<in> set (rx_run (seqs (rs @ [g, Ahead x])) \<mu>)"
    by (auto simp: seqs_def)
  then show ?case by (rule Cons.IH)
qed

lemma questionRegex_group:
  assumes "(m, cap) \<in> set (matchAll questionRegex s)"
  shows "\<exists>w. cap = Some (w @ S ''?'')"
proof -
  from assms have "(m, cap) \<in> set (rx_all questionRegex None s)"
    by (simp add: matchAll_def)
  from rx_all_run [OF this] obtain \<sigma> \<tau> where r: "\<tau> \<in> set (rx_run questionRegex \<sigma>)"
    and c: "st_cap \<tau> = cap"
    by blast
  let ?g = "Group (seqs [Rep True 1 (\<lambda>c. c \<noteq> of_char CHR ''?''), ch CHR ''?''])"
  have "questionRegex = seqs ([Alt Bol (ch CHR 0x0A), Rep True 1 is_digit, ch CHR ''.'',
     Rep True 0 is_space] @ [?g])"
    by (simp add: questionRegex_def)
  with r seqs_last obtain \<mu> where "\<tau> \<in> set (rx_run ?g \<mu>)"
    by metis
  then have "\<tau> \<in> set (rx_run (Group (Seq (Rep True 1 (\<lambda>c. c \<noteq> of_char CHR ''?''))
      (Seq (Chr (\<lambda>x. x = of_char CHR ''?'')) Eps))) \<mu>)"
    by (simp only: seqs_def foldr.simps o_apply ch_def id_apply)
  from group_ends_with [OF this] c show ?thesis by auto
qed

lemma optionRegex_group:
  assumes "(m, cap) \<in> set (matchAll optionRegex s)"
  shows "cap \<noteq> None"
proof -
  from assms have "(m, cap) \<in> set (rx_all optionRegex None s)"
    by (simp add: matchAll_def)
  from rx_all_run [OF this] obtain \<sigma> \<tau> where r: "\<tau> \<in> set (rx_run optionRegex \<sigma>)"
    and c: "st_cap \<tau> = cap"
    by blast
  let ?g = "Group (Rep False 1 is_dot)"
  let ?a = "Alt (seqs [ch CHR 0x0A, Chr (one_of ''ABCD''), ch CHR ''.'']) Eol"
  have "optionRegex = seqs ([Alt Bol (ch CHR 0x0A), Chr (one_of ''ABCD''), ch CHR ''.'',
     Rep True 0 is_space] @ [?g, Ahead ?a])"
    by (simp add: optionRegex_def)
  with r seqs_last_ahead obtain \<mu> where "\<tau> \<in> set (rx_run ?g \<mu>)"
    by metis
  then have "st_cap \<tau> \<noteq> None"
    by (cases \<mu>) (auto simp: st_cap_def)
  with c show ?thesis by simp
qed

lemma trim_question_mark: "\<exists>u. trim (w @ S ''?'') = u @ S ''?''"
proof -
  have nq: "\<not> is_space 63" by (simp add: is_space_def)
  have "\<exists>v. dropWhile is_space (w @ [63]) = v @ [63]"
    using nq by (simp add: dropWhile_append) 
  then obtain v where v: "dropWhile is_space (w @ [63]) = v @ [63]" ..
  have "rev (dropWhile is_space (rev (v @ [63]))) = v @ [63]"
    using nq by simp
  with v show ?thesis by (simp add: trim_def)
qed

lemma those_map_total:
  "(\<And>x. x \<in> set xs \<Longrightarrow> f x \<noteq> None) \<Longrightarrow> \<exists>ys. those (map f xs) = Some ys"
  by (induction xs) (auto split: option.splits)

lemma readOptions_total: "\<exists>opts. readOptions optionsText = Some opts"
  unfolding readOptions_def
  by (rule those_map_total) (auto dest: optionRegex_group)

lemma findCorrectAnswer_range: "0 \<le> findCorrectAnswer z \<and> findCorrectAnswer z \<le> 3"
  by (simp add: findCorrectAnswer_def)

text \<open>One pass of the loop body keeps the list or adds one record to it.\<close>

lemma structuredStep_cases:
  "\<exists>questions'. structuredStep mcqText (Some g) questions = Some questions' \<and>
     (questions' = questions \<or>
      (\<exists>opts z. 4 \<le> length opts \<and>
         questions' = questions @ [\<lparr>question = trim g, options = take 4 opts,
           correctAnswer = findCorrectAnswer z\<rparr>]))"
proof (cases "optionsZone mcqText (trim g)")
  case None
  then show ?thesis by (simp add: structuredStep_def)
next
  case (Some z)
  from readOptions_total obtain opts where "readOptions z = Some opts" ..
  with Some show ?thesis
    by (auto simp: structuredStep_def)
qed

lemma structuredStep_None: "structuredStep mcqText None questions = None"
  by (simp add: structuredStep_def)

lemma structuredStep_result:
  assumes "structuredStep mcqText cap questions = Some questions'"
  obtains (skip) "questions' = questions"
  | (push) g opts z where "cap = Some g" "4 \<le> length opts"
      "questions' = questions @ [\<lparr>question = trim g, options = take 4 opts,
           correctAnswer = findCorrectAnswer z\<rparr>]"
proof -
  from assms obtain g where g: "cap = Some g"
    by (cases cap) (simp_all add: structuredStep_None)
  from structuredStep_cases [of mcqText g questions] assms g
  have "questions' = questions \<or>
      (\<exists>opts z. 4 \<le> length opts \<and>
         questions' = questions @ [\<lparr>question = trim g, options = take 4 opts,
           correctAnswer = findCorrectAnswer z\<rparr>])"
    by simp
  with g skip push show thesis by blast
qed

lemma structuredLoop_Cons:
  assumes "structuredLoop mcqText ((m, cap) # ms) questions = Some qs"
  obtains (full) "\<not> length questions < 10" "qs = questions"
  | (step) questions' where "length questions < 10"
      "structuredStep mcqText cap questions = Some questions'"
      "structuredLoop mcqText ms questions' = Some qs"
proof (cases "length questions < 10")
  case False
  with assms have "qs = questions" by simp
  with False full show thesis by blast
next
  case True
  show thesis
  proof (cases "structuredStep mcqText cap questions")
    case None
    with assms True show thesis by simp
  next
    case (Some questions')
    with assms True have "structuredLoop mcqText ms questions' = Some qs" by simp
    with True Some step show thesis by blast
  qed
qed

lemma structuredLoop_total:
  "(\<And>m cap. (m, cap) \<in> set ms \<Longrightarrow> cap \<noteq> None) \<Longrightarrow>
     \<exists>qs. structuredLoop mcqText ms questions = Some qs"
proof (induction ms arbitrary: questions)
  case Nil
  then show ?case by simp
next
  case (Cons x ms)
  obtain m cap where x: "x = (m, cap)" by (cases x)
  with Cons.prems [of m cap] obtain g where g: "cap = Some g" by auto
  from structuredStep_cases [of mcqText g questions]
  obtain questions' where s: "structuredStep mcqText (Some g) questions = Some questions'" by blast
  have "\<exists>qs. structuredLoop mcqText ms questions' = Some qs"
  proof (rule Cons.IH)
    fix m' cap'
    assume "(m', cap') \<in> set ms"
    then have "(m', cap') \<in> set (x # ms)" by simp
    then show "cap' \<noteq> None" by (rule Cons.prems)
  qed
  then obtain qs where "structuredLoop mcqText ms questions' = Some qs" ..
  with s x g show ?case by simp
qed

lemma structuredLoop_length:
  "structuredLoop mcqText ms questions = Some qs \<Longrightarrow> length questions \<le> 10 \<Longrightarrow> length qs \<le> 10"
proof (induction ms arbitrary: questions)
  case Nil
  then show ?case by simp
next
  case (Cons x ms)
  obtain m cap where x: "x = (m, cap)" by (cases x)
  from Cons.prems(1) [unfolded x] show ?case
  proof (cases rule: structuredLoop_Cons)
    case full
    with Cons.prems(2) show ?thesis by simp
  next
    case (step questions')
    from step(2) have "length questions' \<le> Suc (length questions)"
      by (cases rule: structuredStep_result) simp_all
    with step(1) have "length questions' \<le> 10" by simp
    from Cons.IH [OF step(3) this] show ?thesis .
  qed
qed

lemma structuredLoop_all:
  assumes P: "\<And>u opts a. 0 \<le> a \<Longrightarrow> a \<le> 3 \<Longrightarrow> length opts = 4 \<Longrightarrow>
      P \<lparr>question = u @ S ''?'', options = opts, correctAnswer = a\<rparr>"
  shows "structuredLoop mcqText ms questions = Some qs \<Longrightarrow>
    (\<And>m cap. (m, cap) \<in> set ms \<Longrightarrow> \<exists>w. cap = Some (w @ S ''?'')) \<Longrightarrow>
    list_all P questions \<Longrightarrow> list_all P qs"
proof (induction ms arbitrary: questions)
  case Nil
  then show ?case by simp
next
  case (Cons x ms)
  obtain m cap where x: "x = (m, cap)" by (cases x)
  then have "(m, cap) \<in> set (x # ms)" by simp
  from Cons.prems(2) [OF this] obtain w where w: "cap = Some (w @ S ''?'')" ..
  have rest: "\<And>m' cap'. (m', cap') \<in> set ms \<Longrightarrow> \<exists>w. cap' = Some (w @ S ''?'')"
  proof -
    fix m' cap'
    assume "(m', cap') \<in> set ms"
    then have "(m', cap') \<in> set (x # ms)" by simp
    then show "\<exists>w. cap' = Some (w @ S ''?'')" by (rule Cons.prems(2))
  qed
  from Cons.prems(1) [unfolded x] show ?case
  proof (cases rule: structuredLoop_Cons)
    case full
    with Cons.prems(3) show ?thesis by simp
  next
    case (step questions')
    from step(2) have "list_all P questions'"
    proof (cases rule: structuredStep_result)
      case skip
      with Cons.prems(3) show ?thesis by simp
    next
      case (push g opts z)
      from push(1) w have g: "g = w @ S ''?''" by simp
      from trim_question_mark [of w] obtain u where u: "trim (w @ S ''?'') = u @ S ''?''" ..
      have "P \<lparr>question = u @ S ''?'', options = take 4 opts, correctAnswer = findCorrectAnswer z\<rparr>"
        using findCorrectAnswer_range [of z] push(2) by (intro P) simp_all
      with push(3) g u Cons.prems(3) show ?thesis by simp
    qed
    from Cons.IH [OF step(3) rest this] show ?thesis .
  qed
qed

lemma structuredQuestions_total: "\<exists>qs. structuredQuestions mcqText = Some qs"
  unfolding structuredQuestions_def
  by (rule structuredLoop_total) (auto dest: questionRegex_group)

lemma structuredQuestions_length: "structuredQuestions mcqText = Some qs \<Longrightarrow> length qs \<le> 10"
  unfolding structuredQuestions_def
  by (erule structuredLoop_length) simp

lemma structuredQuestions_all:
  assumes "structuredQuestions mcqText = Some qs"
    and "\<And>u opts a. 0 \<le> a \<Longrightarrow> a \<le> 3 \<Longrightarrow> length opts = 4 \<Longrightarrow>
      P \<lparr>question = u @ S ''?'', options = opts, correctAnswer = a\<rparr>"
  shows "list_all P qs"
proof -
  from assms(1)
  have l: "structuredLoop mcqText (matchAll questionRegex mcqText) [] = Some qs"
    by (simp add: structuredQuestions_def)
  have e: "list_all P []" by simp
  show ?thesis
  proof (rule structuredLoop_all [where P = P, OF assms(2) l _ e])
    fix m cap
    assume "(m, cap) \<in> set (matchAll questionRegex mcqText)"
    then show "\<exists>w. cap = Some (w @ S ''?'')" by (rule questionRegex_group)
  qed
qed

lemma structuredQuestions_wellShaped:
  "structuredQuestions mcqText = Some qs \<Longrightarrow> list_all wellShaped qs"
  by (erule structuredQuestions_all) (simp add: wellShaped_def)

lemma structuredQuestions_asksQuestion:
  "structuredQuestions mcqText = Some qs \<Longrightarrow> list_all asksQuestion qs"
  by (erule structuredQuestions_all) (simp add: asksQuestion_def endsWith_append)

section \<open>Facts about the JSON-array tier\<close>

text \<open>A text that starts with \<^verbatim>\<open>[\<close> parses to an array or not at all.\<close>

lemma put_value_array_open:
  assumes "put_value v (st @ [FArr es]) = Some (e', st')"
  shows "\<not> is_done e' \<and> (\<exists>st'' es'. st' = st'' @ [FArr es'])"
proof (cases st)
  case Nil
  with assms show ?thesis by auto
next
  case (Cons f fs)
  with assms show ?thesis by (cases f) auto
qed

lemma pda_step_array_open:
  assumes "pda_step e (st @ [FArr es]) t = Some (e', st')"
  shows "array_open e' st'"
proof (cases t)
  case TLBrack
  with assms have "st' = (FArr [] # st) @ [FArr es]" "\<not> is_done e'" by (auto split: if_splits)
  then show ?thesis unfolding array_open_def by blast
next
  case TLBrace
  with assms have "st' = (FObj [] # st) @ [FArr es]" "\<not> is_done e'" by (auto split: if_splits)
  then show ?thesis unfolding array_open_def by blast
next
  case TRBrack
  show ?thesis
  proof (cases st)
    case Nil
    with assms TRBrack show ?thesis by (auto simp: array_open_def split: if_splits)
  next
    case (Cons f fs)
    with assms TRBrack obtain xs where "put_value (JArr xs) (fs @ [FArr es]) = Some (e', st')"
      by (cases f) (auto split: if_splits)
    from put_value_array_open [OF this] show ?thesis unfolding array_open_def by blast
  qed
next
  case TRBrace
  show ?thesis
  proof (cases st)
    case Nil
    with assms TRBrace show ?thesis by simp
  next
    case (Cons f fs)
    with assms TRBrace obtain v where "put_value v (fs @ [FArr es]) = Some (e', st')"
      by (cases f) (auto split: if_splits)
    from put_value_array_open [OF this] show ?thesis unfolding array_open_def by blast
  qed
next
  case TComma
  with assms have "st' = st @ [FArr es]" "\<not> is_done e'"
    by (cases st; auto split: if_splits list.splits frame.splits)+
  then show ?thesis unfolding array_open_def by blast
next
  case TColon
  with assms have "st' = st @ [FArr es]" "\<not> is_done e'" by (auto split: if_splits)
  then show ?thesis unfolding array_open_def by blast
next
  case (TStr s)
  show ?thesis
  proof (cases "e = EKeyOrClose \<or> e = EKey")
    case True
    show ?thesis
    proof (cases st)
      case Nil
      with assms TStr True show ?thesis by auto
    next
      case (Cons f fs)
      with assms TStr True obtain ms where "st' = (FKey ms s # fs) @ [FArr es]" "\<not> is_done e'"
        by (cases f) auto
      then show ?thesis unfolding array_open_def by blast
    qed
  next
    case False
    with assms TStr have "put_value (JStr s) (st @ [FArr es]) = Some (e', st')"
      by (auto split: if_splits)
    from put_value_array_open [OF this] show ?thesis unfolding array_open_def by blast
  qed
next
  case (TNum n)
  with assms have "put_value (JNum (number_value n)) (st @ [FArr es]) = Some (e', st')"
    by (auto split: if_splits)
  from put_value_array_open [OF this] show ?thesis unfolding array_open_def by blast
next
  case TTrue
  with assms have "put_value (JBool True) (st @ [FArr es]) = Some (e', st')"
    by (auto split: if_splits)
  from put_value_array_open [OF this] show ?thesis unfolding array_open_def by blast
next
  case TFalse
  with assms have "put_value (JBool False) (st @ [FArr es]) = Some (e', st')"
    by (auto split: if_splits)
  from put_value_array_open [OF this] show ?thesis unfolding array_open_def by blast
next
  case TNull
  with assms have "put_value JNull (st @ [FArr es]) = Some (e', st')"
    by (auto split: if_splits)
  from put_value_array_open [OF this] show ?thesis unfolding array_open_def by blast
qed

lemma pda_step_done: "pda_step (EDone v) [] t = None"
  by (cases t) (simp_all add: wants_value_def)

lemma pda_run_array_open:
  "array_open e st \<Longrightarrow> pda_run e st ts = Some v \<Longrightarrow> \<exists>xs. v = JArr xs"
proof (induction ts arbitrary: e st)
  case Nil
  from Nil.prems(2) have "e = EDone v"
    by (cases e) simp_all
  with Nil.prems(1) show ?case
    by (auto simp: array_open_def)
next
  case (Cons t ts)
  from Cons.prems(2) obtain e' st' where s: "pda_step e st t = Some (e', st')"
    and r: "pda_run e' st' ts = Some v"
    by (auto split: option.splits)
  from Cons.prems(1) s pda_step_done have "\<exists>st0 es. st = st0 @ [FArr es]"
    by (auto simp: array_open_def)
  then obtain st0 es where "st = st0 @ [FArr es]" by blast
  with s have "array_open e' st'" by (simp add: pda_step_array_open)
  from Cons.IH [OF this r] show ?case .
qed

lemma JSON_parse_bracket:
  assumes "JSON_parse (of_char CHR ''['' # cs) = Some v"
  shows "\<exists>xs. v = JArr xs"
proof -
  from assms obtain ts where t: "tokenize cs = Some ts"
    and r: "pda_run EValue [] (TLBrack # ts) = Some v"
    by (auto simp: JSON_parse_def is_json_ws_def split: option.splits)
  from r have "pda_run EValueOrClose [FArr []] ts = Some v"
    by (simp add: wants_value_def)
  moreover have "array_open EValueOrClose ([] @ [FArr []])"
    unfolding array_open_def by simp
  ultimately show ?thesis
    using pda_run_array_open by simp
qed

lemma jsonRegex_bracket:
  assumes "js_match jsonRegex s = Some m"
  shows "\<exists>cs. m = of_char CHR ''['' # cs"
proof -
  from assms obtain st prev' rest' cap where f: "rx_search jsonRegex None s = Some (st, prev', rest', cap)"
    and m: "m = take (length st - length rest') st"
    by (auto simp: js_match_def split: option.splits)
  from rx_search_run [OF f] obtain p where
    r: "(prev', rest', cap) \<in> set (rx_run jsonRegex (p, st, None))" ..
  have j: "jsonRegex = Seq (ch CHR ''['') (seqs [Rep True 0 is_space, ch CHR ''{'', Rep True 0 is_space,
     ch CHR 0x22, lit ''question'', ch CHR 0x22, Rep True 0 any_char,
     ch CHR ''}'', Rep True 0 is_space, ch CHR '']''])"
    by (simp add: jsonRegex_def seqs_def)
  from r obtain \<mu> where a: "\<mu> \<in> set (rx_run (ch CHR ''['') (p, st, None))"
    and b: "(prev', rest', cap) \<in> set (rx_run (seqs [Rep True 0 is_space, ch CHR ''{'',
     Rep True 0 is_space, ch CHR 0x22, lit ''question'', ch CHR 0x22, Rep True 0 any_char,
     ch CHR ''}'', Rep True 0 is_space, ch CHR '']'']) \<mu>)"
    unfolding j by auto
  from a obtain cs where st: "st = of_char CHR ''['' # cs" and mu: "st_rest \<mu> = cs"
    by (auto simp: ch_def st_rest_def split: list.splits if_splits)
  from rx_run_length [OF b] mu have "length rest' \<le> length cs"
    by (simp add: st_rest_def)
  with m st have "m = of_char CHR ''['' # take (length cs - length rest') cs"
    by (simp add: Suc_diff_le)
  then show ?thesis ..
qed

lemma jsonRegex_parses_array:
  "js_match jsonRegex s = Some m \<Longrightarrow> JSON_parse m = Some v \<Longrightarrow> \<exists>xs. v = JArr xs"
  using jsonRegex_bracket JSON_parse_bracket by blast

section \<open>Facts about the pipeline\<close>

lemma jsonTier_Accepted:
  assumes "jsonTier mcqText = Accepted xs"
  obtains m parsedQuestions where "js_match jsonRegex mcqText = Some m"
    and "JSON_parse m = Some (JArr parsedQuestions)" and "10 \<le> length parsedQuestions"
    and "xs = take 10 parsedQuestions"
proof -
  from assms obtain m where m: "js_match jsonRegex mcqText = Some m"
    by (cases "js_match jsonRegex mcqText") (simp_all add: jsonTier_def)
  with assms obtain v where v: "JSON_parse m = Some v"
    by (cases "JSON_parse m") (simp_all add: jsonTier_def)
  from jsonRegex_parses_array [OF m v] obtain ps where ps: "v = JArr ps" ..
  with assms m v have "10 \<le> length ps" "xs = take 10 ps"
    by (simp_all add: jsonTier_def split: if_splits)
  with m v ps that show thesis by blast
qed

lemma jsonTier_Accepted_length: "jsonTier mcqText = Accepted xs \<Longrightarrow> length xs = 10"
  by (erule jsonTier_Accepted) simp

lemma structuredTier_cases:
  obtains (structured) qs where "structuredQuestions mcqText = Some qs" "5 \<le> length qs"
    "length qs \<le> 10" "structuredTier env mcqText = map Built qs"
  | (fallback) qs where "structuredQuestions mcqText = Some qs" "length qs < 5"
    "structuredTier env mcqText = map Built (createFallbackQuestionsFromText env mcqText 10)"
proof -
  from structuredQuestions_total obtain qs where q: "structuredQuestions mcqText = Some qs" ..
  from structuredQuestions_length [OF q] have l: "length qs \<le> 10" .
  show thesis
  proof (cases "5 \<le> length qs")
    case True
    with q l have "structuredTier env mcqText = map Built qs"
      by (simp add: structuredTier_def)
    with q l True structured show thesis by blast
  next
    case False
    with q have "structuredTier env mcqText =
        map Built (createFallbackQuestionsFromText env mcqText 10)"
      by (simp add: structuredTier_def)
    with q False fallback show thesis by fastforce
  qed
qed

lemma pipeline_cases:
  obtains (json) xs where "jsonTier mcqText = Accepted xs" "length xs = 10"
    "parseMCQQuestions env mcqText = map Parsed xs"
  | (structured) qs where "jsonTier mcqText = Insufficient"
    "structuredQuestions mcqText = Some qs" "5 \<le> length qs" "length qs \<le> 10"
    "parseMCQQuestions env mcqText = map Built qs"
  | (fallback) "jsonTier mcqText \<noteq> Accepted (take 10 [])"
    "parseMCQQuestions env mcqText = map Built (createFallbackQuestionsFromText env mcqText 10)"
proof (cases "jsonTier mcqText")
  case (Accepted xs)
  then have "parseMCQQuestions env mcqText = map Parsed xs"
    by (simp add: parseMCQQuestions_def)
  with Accepted jsonTier_Accepted_length [OF Accepted] json show thesis by blast
next
  case Insufficient
  then have p: "parseMCQQuestions env mcqText = structuredTier env mcqText"
    by (simp add: parseMCQQuestions_def)
  show thesis
  proof (cases rule: structuredTier_cases [of mcqText env])
    case (structured qs)
    with p Insufficient show thesis by (intro that(2) [of qs]) simp_all
  next
    case (fallback qs)
    with p Insufficient show thesis by (intro that(3)) simp_all
  qed
next
  case Threw
  then show thesis
    by (intro that(3)) (simp_all add: parseMCQQuestions_def)
qed

section \<open>The pipeline on the example inputs\<close>

lemmas rx_eval = seqs_def ch_def lit_def ch_ci_def lit_ci_def is_digit_def is_space_def is_word_def
  is_dot_def one_of_def any_char_def Let_def st_rest_def st_cap_def at_word_boundary_def
  rx_all.simps matchAll_def js_match_def split_re_def split_str_def startsWith_def trim_def

lemmas num_eval = number_value_def to_double_def floor_log2_def scale2_def round_half_even_def
  digits_value_def exponent_of_def bit_length.simps reduce2.simps is_digit_def Let_def

lemmas json_eval = upt_rec [of _ "numeral _"] JSON_parse_def is_json_ws_def is_digit_def lex_number_def lex_int_def
  lex_frac_def lex_exp_def lex_sign_def lex_escape_def hex4_def hex_val_def escape_def
  startsWith_def wants_value_def js_properties_def own_properties_def is_array_index_def
  digits_value_def Let_def

subsection \<open>The option zones\<close>

lemma plainZone_options: "readOptions plainZone = Some wxyz"
  by (simp add: wxyz_def plainZone_def readOptions_def optionRegex_def rx_eval)

lemma markedZone_options: "readOptions markedZone = Some wxyz"
  by (simp add: wxyz_def markedZone_def readOptions_def optionRegex_def rx_eval)

lemma plainZone_answer: "findCorrectAnswer plainZone = 0"
  by (simp add: plainZone_def findCorrectAnswer_def marks_def correctRegex_def rx_eval)

lemma markedZone_answer: "findCorrectAnswer markedZone = 0"
  by (simp add: markedZone_def findCorrectAnswer_def marks_def correctRegex_def rx_eval)

subsection \<open>The five questions\<close>

lemmas five_text = fiveQuestions_def markedZone_def plainZone_def

lemma five_matches:
  "matchAll questionRegex fiveQuestions =
     [(S ''1. a?'', Some (S ''a?'')), (S ''\<newline>2. b?'', Some (S ''b?'')),
      (S ''\<newline>3. c?'', Some (S ''c?'')), (S ''\<newline>4. d?'', Some (S ''d?'')),
      (S ''\<newline>5. e?'', Some (S ''e?''))]"
  by (simp add: five_text questionRegex_def rx_eval)

lemma five_zone_a: "optionsZone fiveQuestions (S ''a?'') = Some markedZone"
  by (simp add: five_text optionsZone_def zoneRegex_def rx_eval)

lemma five_zone_b: "optionsZone fiveQuestions (S ''b?'') = Some plainZone"
  by (simp add: five_text optionsZone_def zoneRegex_def rx_eval)

lemma five_zone_c: "optionsZone fiveQuestions (S ''c?'') = Some plainZone"
  by (simp add: five_text optionsZone_def zoneRegex_def rx_eval)

lemma five_zone_d: "optionsZone fiveQuestions (S ''d?'') = Some plainZone"
  by (simp add: five_text optionsZone_def zoneRegex_def rx_eval)

lemma five_zone_e: "optionsZone fiveQuestions (S ''e?'') = Some plainZone"
  by (simp add: five_text optionsZone_def zoneRegex_def rx_eval)

lemma zones_nonempty: "plainZone \<noteq> []" "markedZone \<noteq> []"
  by (simp_all add: plainZone_def markedZone_def)

lemma five_structured: "structuredQuestions fiveQuestions = Some fiveRecords"
  using five_matches five_zone_a five_zone_b five_zone_c five_zone_d five_zone_e
  by (simp add: structuredQuestions_def structuredStep_def trim_def is_space_def
      plainZone_options markedZone_options plainZone_answer markedZone_answer zones_nonempty
      fiveRecords_def wxyz_def)

lemma five_jsonTier: "jsonTier fiveQuestions = Insufficient"
  by (simp add: five_text jsonTier_def jsonRegex_def rx_eval)

lemma five_pipeline: "parseMCQQuestions env fiveQuestions = map Built fiveRecords"
  by (simp add: parseMCQQuestions_def five_jsonTier structuredTier_def five_structured
      fiveRecords_def)

subsection \<open>The questions before a malformed array\<close>

lemmas bad_text = questionsThenBadJson_def plainZone_def

lemma bad_matches:
  "matchAll questionRegex questionsThenBadJson =
     [(S ''1. a?'', Some (S ''a?'')), (S ''\<newline>2. b?'', Some (S ''b?'')),
      (S ''\<newline>3. c?'', Some (S ''c?'')), (S ''\<newline>4. d?'', Some (S ''d?'')),
      (S ''\<newline>5. e?'', Some (S ''e?''))]"
  by (simp add: bad_text questionRegex_def rx_eval)

lemma bad_zone_a: "optionsZone questionsThenBadJson (S ''a?'') = Some plainZone"
  by (simp add: bad_text optionsZone_def zoneRegex_def rx_eval)

lemma bad_zone_b: "optionsZone questionsThenBadJson (S ''b?'') = Some plainZone"
  by (simp add: bad_text optionsZone_def zoneRegex_def rx_eval)

lemma bad_zone_c: "optionsZone questionsThenBadJson (S ''c?'') = Some plainZone"
  by (simp add: bad_text optionsZone_def zoneRegex_def rx_eval)

lemma bad_zone_d: "optionsZone questionsThenBadJson (S ''d?'') = Some plainZone"
  by (simp add: bad_text optionsZone_def zoneRegex_def rx_eval)

lemma bad_zone_e: "optionsZone questionsThenBadJson (S ''e?'') = Some plainZone"
  by (simp add: bad_text optionsZone_def zoneRegex_def rx_eval)

lemma bad_structured: "structuredQuestions questionsThenBadJson = Some fiveRecords"
  using bad_matches bad_zone_a bad_zone_b bad_zone_c bad_zone_d bad_zone_e
  by (simp add: structuredQuestions_def structuredStep_def trim_def is_space_def
      plainZone_options plainZone_answer zones_nonempty fiveRecords_def wxyz_def)

lemma bad_match: \<open>js_match jsonRegex questionsThenBadJson = Some (S ''[{"question"}]'')\<close>
  by (simp add: bad_text jsonRegex_def rx_eval)

lemma bad_parse: \<open>JSON_parse (S ''[{"question"}]'') = None\<close>
  by (simp add: json_eval)

lemma bad_jsonTier: "jsonTier questionsThenBadJson = Threw"
  using bad_match bad_parse by (simp add: jsonTier_def)

lemma bad_structuredTier: "structuredTier env questionsThenBadJson = map Built fiveRecords"
  by (simp add: structuredTier_def bad_structured fiveRecords_def)

subsection \<open>Members and numbers of a parsed value\<close>

text \<open>
  Of two members with one name the later value stays, at the place of the first; names
  that are array indices come first, in ascending order. A number is the double of its
  token: \<^verbatim>\<open>1.0\<close> is 1, \<^verbatim>\<open>-0\<close> keeps its sign, \<^verbatim>\<open>15e-1\<close> is \<open>3 * 2 ^ - 1\<close>.
\<close>

lemma parse_members:
  \<open>JSON_parse (S ''{"b":1,"2":0,"1":0,"b":2}'') =
     Some (JObj [(S ''1'', JNum (Finite False 0 0)), (S ''2'', JNum (Finite False 0 0)),
       (S ''b'', JNum (Finite False 2 0))])\<close>
  by (simp add: json_eval num_eval)

lemma parse_numbers:
  \<open>JSON_parse (S ''[1.0,-0,15e-1]'') =
     Some (JArr [JNum (Finite False 1 0), JNum (Finite True 0 0), JNum (Finite False 3 (- 1))])\<close>
  by (simp add: json_eval num_eval)

subsection \<open>The JSON texts\<close>

lemma json_match: "js_match jsonRegex jsonText = Some jsonArrayText"
  by (simp add: jsonText_def jsonArrayText_def jsonRegex_def rx_eval)

lemma digit_value:
  "map number_value [S ''1'', S ''2'', S ''3'', S ''4'', S ''5'', S ''6'', S ''7'', S ''8'', S ''9''] =
     map (\<lambda>n. Finite False n 0) [1..<10]"
  by (simp add: upt_rec [of _ "numeral _"] num_eval)

lemma jsonElements_eval:
  "jsonElements = firstRecord # map JNum (map (\<lambda>n. Finite False n 0) [1..<10]) @ [JObj []]"
  by (simp add: jsonElements_def)

lemma json_parse: "JSON_parse jsonArrayText = Some (JArr jsonElements)"
  using digit_value
  by (simp add: jsonArrayText_def jsonElements_eval firstRecord_def json_eval)

lemma json_jsonTier: "jsonTier jsonText = Accepted (take 10 jsonElements)"
  by (simp add: jsonTier_def json_match json_parse) (simp add: jsonElements_eval)

lemma short_match: "js_match jsonRegex shortJson = Some shortJson"
  by (simp add: shortJson_def jsonRegex_def rx_eval)

lemma short_parse:
  \<open>JSON_parse shortJson = Some (JArr [JObj [(S ''question'', JNum (Finite False 1 0))]])\<close>
  using digit_value by (simp add: shortJson_def json_eval)

lemma trail_array_match: "js_match jsonRegex trailArray = Some trailArray"
  by (simp add: trailArray_def jsonRegex_def rx_eval)

lemma trail_array_parse: "JSON_parse trailArray = Some (JArr trailElements)"
  using digit_value
  by (simp add: trailArray_def trailElements_def json_eval)

lemma trail_match: "js_match jsonRegex trailText = Some trailMatch"
  by (simp add: trailText_def trailMatch_def trailArray_def jsonRegex_def rx_eval)

lemma trail_parse: "JSON_parse trailMatch = None"
  using digit_value
  by (simp add: trailMatch_def trailArray_def json_eval)

lemma trail_jsonTier: "jsonTier trailText = Threw"
  by (simp add: jsonTier_def trail_match trail_parse)

subsection \<open>The question without options\<close>

lemma lone_jsonTier: "jsonTier loneQuestion = Insufficient"
  by (simp add: loneQuestion_def jsonTier_def jsonRegex_def rx_eval)

lemma lone_structured: "structuredQuestions loneQuestion = Some []"
  by (simp add: loneQuestion_def structuredQuestions_def structuredStep_def optionsZone_def
      questionRegex_def zoneRegex_def rx_eval)

lemma lone_structuredTier:
  "structuredTier env loneQuestion = map Built (createFallbackQuestionsFromText env loneQuestion 10)"
  by (simp add: structuredTier_def lone_structured)

lemma lone_sentences: "split_re loneQuestion sentenceRegex = [S ''1'', S ''a?'']"
  by (simp add: loneQuestion_def sentenceRegex_def rx_eval)

lemma lone_record: "fallbackRecord env0 0 [S ''1'', S ''a?''] 1 (S ''a?'') = (loneRecord, 1)"
  by (simp add: fallbackRecord_def chooseCorrect_def phraseRegex_def distractors_def
      wordsToAvoid_def spaceRegex_def padOptions.simps decimal.simps splice_in_def randomBelow_def
      env0_def endsWith_def loneRecord_def rx_eval)

lemma lone_loop:
  "fallbackLoop env0 10 [S ''1'', S ''a?''] [0, 1] 0 [] 0 = ([loneRecord], 1)"
  using lone_record
  by (simp add: trim_def is_space_def startsWith_def)

lemma lone_fill:
  "fillQuestions env0 10 [loneRecord] 1 = loneRecord # map (\<lambda>k. genericQuestion env0 k k) [1..<10]"
  by (simp add: fillQuestions.simps upt_rec [of _ "numeral _"])

lemma lone_fallback:
  "createFallbackQuestionsFromText env0 loneQuestion 10 =
     loneRecord # map (\<lambda>k. genericQuestion env0 k k) [1..<10]"
proof -
  have i: "[0..<length [S ''1'', S ''a?'']] = [0, 1]"
    by (simp add: upt_rec [of _ "numeral _"])
  have t: "take 10 (loneRecord # map (\<lambda>k. genericQuestion env0 k k) [1..<10]) =
      loneRecord # map (\<lambda>k. genericQuestion env0 k k) [1..<10]"
    by simp
  show ?thesis
    unfolding createFallbackQuestionsFromText_def lone_sentences i lone_loop prod.case lone_fill t
    by (rule refl)
qed

lemma lone_pipeline:
  "parseMCQQuestions env0 loneQuestion =
     map Built (loneRecord # map (\<lambda>k. genericQuestion env0 k k) [1..<10])"
  by (simp add: parseMCQQuestions_def lone_jsonTier lone_structuredTier lone_fallback)

subsection \<open>One sentence of the fallback generator\<close>

lemma planet_choice: "chooseCorrect env3 0 planetSentence = (S ''Which'', 1)"
  by (simp add: chooseCorrect_def planetSentence_def phraseRegex_def randomBelow_def env3_def
      rx_eval)

lemma planet_distractors:
  "distractors env3 [planetSentence] 0 planetSentence = [S ''Option 1'', S ''Option 2'', S ''Option 3'']"
  by (simp add: distractors_def padOptions.simps decimal.simps)

lemma planet_record: "fallbackRecord env3 0 [planetSentence] 0 planetSentence = (planetRecord, 2)"
  using planet_choice planet_distractors
  by (simp add: fallbackRecord_def planetRecord_def splice_in_def randomBelow_def env3_def
      endsWith_def planetSentence_def)

section \<open>The claims\<close>

text \<open>
  C1 (as stated, refuted). The claim: for every input the pipeline returns exactly 10
  records. On the five questions the structured-text tier collects 5 records and the
  pipeline returns these 5.
\<close>

theorem C1_five_records_returned: "length (parseMCQQuestions env0 fiveQuestions) = 5"
  by (simp add: five_pipeline fiveRecords_def)

text \<open>
  C1 (amended). For every input the pipeline returns exactly 10 records, except when the
  JSON tier returns nothing and the structured-text tier collects between 5 and 9
  records: then it returns exactly those 5 to 9 records, with no record added.
\<close>

theorem C1_ten_except_short_structured:
  "(\<forall>qs. jsonTier mcqText = Insufficient \<and> structuredQuestions mcqText = Some qs \<and>
          5 \<le> length qs \<and> length qs < 10 \<longrightarrow>
        parseMCQQuestions env mcqText = map Built qs \<and>
        length (parseMCQQuestions env mcqText) = length qs) \<and>
   (\<not> (jsonTier mcqText = Insufficient \<and>
         (\<exists>qs. structuredQuestions mcqText = Some qs \<and> 5 \<le> length qs \<and> length qs < 10)) \<longrightarrow>
      length (parseMCQQuestions env mcqText) = 10)"
proof (cases rule: pipeline_cases [of mcqText env])
  case (json xs)
  then show ?thesis by simp
next
  case (structured qs)
  show ?thesis
  proof (cases "length qs = 10")
    case True
    with structured show ?thesis by simp
  next
    case False
    with structured have "length qs < 10" by simp
    with structured show ?thesis by simp
  qed
next
  case fallback
  have l: "length (parseMCQQuestions env mcqText) = 10"
    unfolding fallback(2) by (simp add: createFallback_length)
  show ?thesis
  proof (intro conjI allI impI)
    fix qs
    assume "jsonTier mcqText = Insufficient \<and> structuredQuestions mcqText = Some qs \<and>
      5 \<le> length qs \<and> length qs < 10"
    then have "parseMCQQuestions env mcqText = map Built qs" "length qs < 10"
      by (simp_all add: parseMCQQuestions_def structuredTier_def)
    with l show "parseMCQQuestions env mcqText = map Built qs" "length (parseMCQQuestions env mcqText) = length qs"
      by simp_all
  next
    from l show "length (parseMCQQuestions env mcqText) = 10" .
  qed
qed

theorem C1_ten_except_short_structured_witness:
  "jsonTier fiveQuestions = Insufficient \<and>
   structuredQuestions fiveQuestions = Some fiveRecords \<and>
   length fiveRecords = 5 \<and>
   parseMCQQuestions env0 fiveQuestions = map Built fiveRecords \<and>
   length (parseMCQQuestions env0 fiveQuestions) = 5 \<and>
   structuredQuestions loneQuestion = Some [] \<and>
   length (parseMCQQuestions env0 loneQuestion) = 10"
proof -
  have l: "length fiveRecords = 5"
    by (simp add: fiveRecords_def)
  from C1_ten_except_short_structured [of fiveQuestions env0] five_jsonTier five_structured l
  have a: "parseMCQQuestions env0 fiveQuestions = map Built fiveRecords"
    "length (parseMCQQuestions env0 fiveQuestions) = 5"
    by auto
  from C1_ten_except_short_structured [of loneQuestion env0] lone_structured
  have b: "length (parseMCQQuestions env0 loneQuestion) = 10"
    by auto
  from five_jsonTier five_structured l a lone_structured b show ?thesis
    by (intro conjI)
qed

text \<open>
  C2 (as stated, refuted). The claim: every returned record has exactly 4 options and a
  correct answer in 0..3, the records of the JSON tier included. On the JSON text the
  pipeline returns the first ten parsed elements as they are: the first has no options
  and the answer 9, the others are numbers.
\<close>

theorem C2_json_records_unchecked:
  "parseMCQQuestions env0 jsonText = map Parsed (take 10 jsonElements) \<and>
   hd (take 10 jsonElements) = JObj [(S ''question'', JStr (S ''Q?'')), (S ''options'', JArr []),
     (S ''correctAnswer'', JNum (Finite False 9 0))]"
  by (simp add: parseMCQQuestions_def json_jsonTier) (simp add: jsonElements_eval firstRecord_def)

text \<open>
  C2 (amended). Every record built by the structured-text tier or by the fallback
  generator has exactly 4 options and a correct answer in 0..3; the elements the JSON
  tier returns are not checked.
\<close>

theorem C2_built_records_shape:
  assumes "Built q \<in> set (parseMCQQuestions env mcqText)"
  shows "length (options q) = 4 \<and> correctAnswer q \<in> {0, 1, 2, 3}"
proof -
  have "wellShaped q"
  proof (cases rule: pipeline_cases [of mcqText env])
    case (json xs)
    with assms show ?thesis by auto
  next
    case (structured qs)
    with assms structuredQuestions_wellShaped [of mcqText qs] show ?thesis
      by (auto simp: list_all_iff)
  next
    case fallback
    with assms createFallback_wellShaped [of env mcqText 10] show ?thesis
      by (auto simp: list_all_iff)
  qed
  then show ?thesis
    by (auto simp: wellShaped_def)
qed

theorem C2_built_records_shape_witness:
  "Built \<lparr>question = S ''a?'', options = wxyz, correctAnswer = 0\<rparr>
     \<in> set (parseMCQQuestions env0 fiveQuestions) \<and>
   length (options \<lparr>question = S ''a?'', options = wxyz, correctAnswer = 0\<rparr>) = 4 \<and>
   correctAnswer \<lparr>question = S ''a?'', options = wxyz, correctAnswer = 0\<rparr> \<in> {0, 1, 2, 3} \<and>
   Built loneRecord \<in> set (parseMCQQuestions env0 loneQuestion) \<and>
   length (options loneRecord) = 4 \<and>
   correctAnswer loneRecord \<in> {0, 1, 2, 3}"
proof -
  have a: "Built \<lparr>question = S ''a?'', options = wxyz, correctAnswer = 0\<rparr>
     \<in> set (parseMCQQuestions env0 fiveQuestions)"
    by (simp add: five_pipeline fiveRecords_def)
  have b: "Built loneRecord \<in> set (parseMCQQuestions env0 loneQuestion)"
    by (simp add: lone_pipeline)
  from C2_built_records_shape [OF a] C2_built_records_shape [OF b] a b show ?thesis
    by (intro conjI) simp_all
qed

text \<open>
  C3 (as stated, refuted). The claim: if the input contains a parseable JSON array that
  matches the pattern and has at least 10 elements, the pipeline returns the first 10
  elements of that array. The text \<^verbatim>\<open>Here: [{"question":1},1,2,3,4,5,6,7,8,{}] (see {note}] above)\<close>
  contains such an array of 10 elements, but the pattern is greedy and selects the text
  up to the last \<^verbatim>\<open>}]\<close>; \<^verbatim>\<open>JSON.parse\<close> throws on it and the pipeline returns the
  ten records of the fallback generator, not the elements of the array.
\<close>

theorem C3_greedy_match_overruns_array:
  "trailText = S ''Here: '' @ trailArray @ S '' (see {note}] above)'' \<and>
   js_match jsonRegex trailArray = Some trailArray \<and>
   JSON_parse trailArray = Some (JArr trailElements) \<and>
   length trailElements = 10 \<and>
   js_match jsonRegex trailText = Some (trailArray @ S '' (see {note}]'') \<and>
   JSON_parse (trailArray @ S '' (see {note}]'') = None \<and>
   jsonTier trailText = Threw \<and>
   parseMCQQuestions env0 trailText =
     map Built (createFallbackQuestionsFromText env0 trailText 10) \<and>
   parseMCQQuestions env0 trailText \<noteq> map Parsed (take 10 trailElements)"
proof -
  have l: "length trailElements = 10"
    by (simp add: trailElements_def)
  have p: "parseMCQQuestions env0 trailText =
      map Built (createFallbackQuestionsFromText env0 trailText 10)"
    by (simp add: parseMCQQuestions_def trail_jsonTier)
  have "length (createFallbackQuestionsFromText env0 trailText 10) = 10"
    by (simp add: createFallback_length)
  then obtain q qs where "createFallbackQuestionsFromText env0 trailText 10 = q # qs"
    by (cases "createFallbackQuestionsFromText env0 trailText 10") simp_all
  with p have n: "parseMCQQuestions env0 trailText \<noteq> map Parsed (take 10 trailElements)"
    by (simp add: trailElements_def)
  have t: "trailText = S ''Here: '' @ trailArray @ S '' (see {note}] above)''"
    by (simp add: trailText_def)
  from t trail_array_match trail_array_parse l trail_match [unfolded trailMatch_def]
    trail_parse [unfolded trailMatch_def] trail_jsonTier p n
  show ?thesis
    by (intro conjI)
qed

text \<open>
  C3 (amended). When the text that the greedy JSON pattern selects from the input (from
  the first \<^verbatim>\<open>[ { "question"\<close> to the last \<^verbatim>\<open>} ]\<close>) parses, it parses to an array;
  with at least 10 elements the pipeline returns the first 10 of them as
  \<^verbatim>\<open>JSON.parse\<close> returns them, with fewer than 10 the result is that of the
  structured-text tier.
\<close>

theorem C3_json_first_ten:
  assumes "js_match jsonRegex mcqText = Some m" and "JSON_parse m = Some v"
  shows "\<exists>parsedQuestions. v = JArr parsedQuestions \<and>
         (10 \<le> length parsedQuestions \<longrightarrow>
            parseMCQQuestions env mcqText = map Parsed (take 10 parsedQuestions)) \<and>
         (length parsedQuestions < 10 \<longrightarrow>
            parseMCQQuestions env mcqText = structuredTier env mcqText)"
proof -
  from jsonRegex_parses_array [OF assms] obtain ps where ps: "v = JArr ps" ..
  with assms have "(10 \<le> length ps \<longrightarrow> parseMCQQuestions env mcqText = map Parsed (take 10 ps)) \<and>
      (length ps < 10 \<longrightarrow> parseMCQQuestions env mcqText = structuredTier env mcqText)"
    by (simp add: parseMCQQuestions_def jsonTier_def)
  with ps show ?thesis by blast
qed

theorem C3_json_first_ten_witness:
  "parseMCQQuestions env0 jsonText = map Parsed (take 10 jsonElements) \<and>
   length jsonElements = 11 \<and>
   parseMCQQuestions env0 shortJson = structuredTier env0 shortJson"
proof -
  have l: "length jsonElements = 11"
    by (simp add: jsonElements_eval)
  from C3_json_first_ten [OF json_match json_parse, of env0] l
  have a: "parseMCQQuestions env0 jsonText = map Parsed (take 10 jsonElements)"
    by auto
  from C3_json_first_ten [OF short_match short_parse, of env0]
  have b: "parseMCQQuestions env0 shortJson = structuredTier env0 shortJson"
    by auto
  from a l b show ?thesis by (intro conjI)
qed

text \<open>
  C4 (as stated, refuted). The claim: an exception in the JSON tier passes control to the
  structured-text tier. On the five questions followed by a malformed array
  \<^verbatim>\<open>JSON.parse\<close> throws; the structured-text tier would return the five records,
  the pipeline returns the ten records of the fallback generator.
\<close>

theorem C4_exception_skips_structured_tier:
  "jsonTier questionsThenBadJson = Threw \<and>
   structuredTier env0 questionsThenBadJson = map Built fiveRecords \<and>
   length (structuredTier env0 questionsThenBadJson) = 5 \<and>
   parseMCQQuestions env0 questionsThenBadJson =
     map Built (createFallbackQuestionsFromText env0 questionsThenBadJson 10) \<and>
   length (parseMCQQuestions env0 questionsThenBadJson) = 10"
  by (simp add: bad_jsonTier bad_structuredTier parseMCQQuestions_def createFallback_length)
    (simp add: fiveRecords_def)

text \<open>
  C4 (amended). An exception of \<^verbatim>\<open>JSON.parse\<close> in the JSON tier is caught and never
  reaches the caller; control passes to the fallback generator, not to the
  structured-text tier, and the pipeline returns its 10 records.
\<close>

theorem C4_exception_goes_to_fallback:
  assumes "js_match jsonRegex mcqText = Some m" and "JSON_parse m = None"
  shows "parseMCQQuestions env mcqText =
           map Built (createFallbackQuestionsFromText env mcqText 10) \<and>
         length (parseMCQQuestions env mcqText) = 10"
  using assms by (simp add: parseMCQQuestions_def jsonTier_def createFallback_length)

theorem C4_exception_goes_to_fallback_witness:
  "parseMCQQuestions env0 questionsThenBadJson =
     map Built (createFallbackQuestionsFromText env0 questionsThenBadJson 10) \<and>
   length (parseMCQQuestions env0 questionsThenBadJson) = 10"
  using C4_exception_goes_to_fallback [OF bad_match bad_parse] .

text \<open>
  C5. When the JSON tier returns nothing, the structured-text tier collects its records
  without an exception, at most 10 of them; 5 or more are returned as they are, with no
  record of the fallback generator added; with fewer than 5 the result is that of the
  fallback generator.
\<close>

theorem C5_structured_threshold:
  assumes "jsonTier mcqText = Insufficient"
  shows "\<exists>questions. structuredQuestions mcqText = Some questions \<and>
         length questions \<le> 10 \<and>
         (5 \<le> length questions \<longrightarrow>
            parseMCQQuestions env mcqText = map Built questions \<and>
            length (parseMCQQuestions env mcqText) = length questions) \<and>
         (length questions < 5 \<longrightarrow>
            parseMCQQuestions env mcqText =
              map Built (createFallbackQuestionsFromText env mcqText 10))"
proof -
  from structuredQuestions_total obtain qs where q: "structuredQuestions mcqText = Some qs" ..
  with assms structuredQuestions_length [OF q]
  have "length qs \<le> 10 \<and>
      (5 \<le> length qs \<longrightarrow> parseMCQQuestions env mcqText = map Built qs \<and>
         length (parseMCQQuestions env mcqText) = length qs) \<and>
      (length qs < 5 \<longrightarrow> parseMCQQuestions env mcqText =
         map Built (createFallbackQuestionsFromText env mcqText 10))"
    by (simp add: parseMCQQuestions_def structuredTier_def)
  with q show ?thesis by blast
qed

theorem C5_structured_threshold_witness:
  "structuredQuestions fiveQuestions = Some fiveRecords \<and>
   parseMCQQuestions env0 fiveQuestions = map Built fiveRecords \<and>
   length (parseMCQQuestions env0 fiveQuestions) = 5 \<and>
   structuredQuestions loneQuestion = Some [] \<and>
   parseMCQQuestions env0 loneQuestion =
     map Built (createFallbackQuestionsFromText env0 loneQuestion 10)"
proof -
  have l: "length fiveRecords = 5"
    by (simp add: fiveRecords_def)
  from C5_structured_threshold [OF five_jsonTier, of env0] five_structured l
  have a: "parseMCQQuestions env0 fiveQuestions = map Built fiveRecords"
    "length (parseMCQQuestions env0 fiveQuestions) = 5"
    by auto
  from C5_structured_threshold [OF lone_jsonTier, of env0] lone_structured
  have b: "parseMCQQuestions env0 loneQuestion =
     map Built (createFallbackQuestionsFromText env0 loneQuestion 10)"
    by auto
  from five_structured a lone_structured b show ?thesis by (intro conjI)
qed

text \<open>
  C6 (the code departs from the claim). The zone of the first of the five questions
  carries the marker \<^verbatim>\<open>Correct answer: B\<close>, which the claim maps to index 1. The
  test for the letter A comes first and its pattern, under \<^verbatim>\<open>/i\<close>, matches
  \<^verbatim>\<open>Correct a\<close> of \<^verbatim>\<open>Correct answer\<close>: the index is 0.
\<close>

theorem C6_correct_answer_B_gives_0:
  "optionsZone fiveQuestions (S ''a?'') = Some markedZone \<and>
   js_match (correctRegex CHR ''A'') markedZone = Some (S ''Correct a'') \<and>
   findCorrectAnswer markedZone = 0 \<and>
   parseMCQQuestions env0 fiveQuestions = map Built fiveRecords \<and>
   correctAnswer (hd fiveRecords) = 0"
proof -
  have m: "js_match (correctRegex CHR ''A'') markedZone = Some (S ''Correct a'')"
    by (simp add: markedZone_def correctRegex_def rx_eval)
  have h: "correctAnswer (hd fiveRecords) = 0"
    by (simp add: fiveRecords_def)
  from five_zone_a m markedZone_answer five_pipeline [of env0] h show ?thesis
    by (intro conjI)
qed

text \<open>
  C7. In the record of a sentence the chosen phrase is inserted into the list of 3
  distractors at a position in 0..3; the record has these 4 options, and its correct
  answer is the first position of the phrase in them: an index in 0..3 at which the
  options hold the phrase.
\<close>

theorem C7_fallback_correct_index:
  assumes "fallbackRecord env t sentences i sentence = (q, t')"
    and "chooseCorrect env t sentence = (correctOption, t1)"
  shows "length (distractors env sentences i sentence) = 3 \<and>
         randomBelow env t1 4 \<le> 3 \<and>
         options q = splice_in (randomBelow env t1 4) correctOption
                       (distractors env sentences i sentence) \<and>
         length (options q) = 4 \<and>
         correctAnswer q = indexOf (options q) correctOption \<and>
         0 \<le> correctAnswer q \<and> correctAnswer q \<le> 3 \<and>
         options q ! nat (correctAnswer q) = correctOption"
proof -
  have "randomBelow env t1 4 < 4" by (rule randomBelow_less) simp
  then have "randomBelow env t1 4 \<le> 3" by simp
  with fallbackRecord_shape [OF assms] distractors_length [of env sentences i sentence]
  show ?thesis by simp
qed

theorem C7_fallback_correct_index_witness:
  "fallbackRecord env3 0 [planetSentence] 0 planetSentence = (planetRecord, 2) \<and>
   chooseCorrect env3 0 planetSentence = (S ''Which'', 1) \<and>
   length (options planetRecord) = 4 \<and>
   correctAnswer planetRecord = indexOf (options planetRecord) (S ''Which'') \<and>
   correctAnswer planetRecord = 3 \<and>
   options planetRecord ! nat (correctAnswer planetRecord) = S ''Which''"
proof -
  have "correctAnswer planetRecord = 3"
    by (simp add: planetRecord_def)
  with C7_fallback_correct_index [OF planet_record planet_choice] planet_record planet_choice
  show ?thesis by blast
qed

text \<open>
  C8. When the JSON tier returns its array, the result of the pipeline is the same under
  every random source (and every other part of the environment).
\<close>

theorem C8_json_tier_deterministic:
  assumes "jsonTier mcqText = Accepted xs"
  shows "parseMCQQuestions env mcqText = parseMCQQuestions env' mcqText"
  using assms by (simp add: parseMCQQuestions_def)

theorem C8_json_tier_deterministic_witness:
  "jsonTier jsonText = Accepted (take 10 jsonElements) \<and>
   parseMCQQuestions env0 jsonText = parseMCQQuestions env3 jsonText"
  using C8_json_tier_deterministic [OF json_jsonTier, of env0 env3] json_jsonTier
  by simp

text \<open>C9. For every input the pipeline returns at most 10 elements.\<close>

theorem C9_at_most_ten: "length (parseMCQQuestions env mcqText) \<le> 10"
  by (cases rule: pipeline_cases [of mcqText env]) (simp_all add: createFallback_length)

text \<open>
  C10. The question of every record built by the structured-text tier or by the fallback
  generator ends with a question mark.
\<close>

theorem C10_built_question_mark:
  assumes "Built q \<in> set (parseMCQQuestions env mcqText)"
  shows "endsWith (question q) (S ''?'')"
proof -
  have "asksQuestion q"
  proof (cases rule: pipeline_cases [of mcqText env])
    case (json xs)
    with assms show ?thesis by auto
  next
    case (structured qs)
    with assms structuredQuestions_asksQuestion [of mcqText qs] show ?thesis
      by (auto simp: list_all_iff)
  next
    case fallback
    with assms createFallback_asksQuestion [of env mcqText 10] show ?thesis
      by (auto simp: list_all_iff)
  qed
  then show ?thesis
    by (simp add: asksQuestion_def)
qed

theorem C10_built_question_mark_witness:
  "Built \<lparr>question = S ''e?'', options = wxyz, correctAnswer = 0\<rparr>
     \<in> set (parseMCQQuestions env0 fiveQuestions) \<and>
   endsWith (question \<lparr>question = S ''e?'', options = wxyz, correctAnswer = 0\<rparr>) (S ''?'') \<and>
   Built (genericQuestion env0 9 9) \<in> set (parseMCQQuestions env0 loneQuestion) \<and>
   question (genericQuestion env0 9 9) = S ''Question 10 related to the subject?'' \<and>
   endsWith (question (genericQuestion env0 9 9)) (S ''?'')"
proof -
  have a: "Built \<lparr>question = S ''e?'', options = wxyz, correctAnswer = 0\<rparr>
     \<in> set (parseMCQQuestions env0 fiveQuestions)"
    by (simp add: five_pipeline fiveRecords_def)
  have "(9::nat) \<in> set [1..<10]" by simp
  then have "genericQuestion env0 9 9 \<in> (\<lambda>k. genericQuestion env0 k k) ` set [1..<10]"
    by (rule imageI)
  then have b: "Built (genericQuestion env0 9 9) \<in> set (parseMCQQuestions env0 loneQuestion)"
    by (simp add: lone_pipeline)
  have q: "question (genericQuestion env0 9 9) = S ''Question 10 related to the subject?''"
    by (simp add: genericQuestion_def decimal.simps)
  from C10_built_question_mark [OF a] C10_built_question_mark [OF b] a b q show ?thesis
    by (intro conjI) simp_all
qed

end
